theory Spec2Isabelle
  imports Complex_Main
begin

section \<open>Adaptive weighting (adaptiveWeighting.js)\<close>

text \<open>
  JavaScript numbers are modelled as reals: the comparisons of the source are exact
  comparisons of the values involved. An accuracy that is \<open>null\<close> or \<open>undefined\<close> is
  \<open>None\<close>.
\<close>

definition WEIGHT_NO_DATA :: nat where
  "WEIGHT_NO_DATA = 3"

definition WEIGHT_STRUGGLING :: nat where
  "WEIGHT_STRUGGLING = 5"

definition WEIGHT_NEEDS_WORK :: nat where
  "WEIGHT_NEEDS_WORK = 3"

definition WEIGHT_STRONG :: nat where
  "WEIGHT_STRONG = 1"

definition getWeight :: "real option \<Rightarrow> nat" where
  "getWeight accuracy =
     (case accuracy of
        None \<Rightarrow> WEIGHT_NO_DATA
      | Some a \<Rightarrow>
          if a < 0.5 then WEIGHT_STRUGGLING
          else if a < 0.8 then WEIGHT_NEEDS_WORK
          else WEIGHT_STRONG)"

text \<open>A stat record as \<open>buildWeightedPool\<close> reads it: the interval id and the accuracy.\<close>

record interval_stat =
  stat_intervalId :: string
  accuracy :: "real option"

text \<open>
  \<open>new Map(pairs)\<close> inserts the pairs from left to right, so a later record for the same
  id replaces an earlier one.
\<close>

definition statMap :: "interval_stat list \<Rightarrow> (string \<rightharpoonup> real option)" where
  "statMap intervalStats =
     foldl (\<lambda>m s. m(stat_intervalId s \<mapsto> accuracy s)) Map.empty intervalStats"

definition statMapLookup :: "(string \<rightharpoonup> real option) \<Rightarrow> string \<Rightarrow> real option" where
  "statMapLookup m ident = (case m ident of None \<Rightarrow> None | Some a \<Rightarrow> a)"

text \<open>
  The outer loop of \<open>buildWeightedPool\<close> pushes each id \<open>weight\<close> times onto the pool;
  \<open>intervalStats ?? []\<close> turns a missing stats argument into the empty list.
\<close>

definition buildWeightedPool :: "string list \<Rightarrow> interval_stat list option \<Rightarrow> string list" where
  "buildWeightedPool activeIntervalIds intervalStats =
     (let m = statMap (case intervalStats of None \<Rightarrow> [] | Some ss \<Rightarrow> ss)
      in foldl (\<lambda>pool ident. pool @ replicate (getWeight (statMapLookup m ident)) ident)
           [] activeIntervalIds)"

text \<open>
  The accuracy of an id as the specification words it: the accuracy of the id's record
  in the stats (the last one, should there be several), and null when the id has none.
\<close>

definition accuracyOf :: "interval_stat list option \<Rightarrow> string \<Rightarrow> real option" where
  "accuracyOf intervalStats ident =
     (let records = filter (\<lambda>s. stat_intervalId s = ident)
                      (case intervalStats of None \<Rightarrow> [] | Some ss \<Rightarrow> ss)
      in if records = [] then None else accuracy (last records))"


section \<open>Interval catalog (intervals.js)\<close>

record interval =
  iv_id :: string
  iv_name :: string
  semitones :: int
  iv_phase :: int
  displayName :: string

definition INTERVALS :: "interval list" where
  "INTERVALS =
    [\<lparr>iv_id = ''root'', iv_name = ''Root'', semitones = 0, iv_phase = 1,
       displayName = ''Root (Unison)''\<rparr>,
     \<lparr>iv_id = ''perfect_fourth'', iv_name = ''Perfect Fourth'', semitones = 5, iv_phase = 1,
       displayName = ''Perfect 4th''\<rparr>,
     \<lparr>iv_id = ''perfect_fifth'', iv_name = ''Perfect Fifth'', semitones = 7, iv_phase = 1,
       displayName = ''Perfect 5th''\<rparr>,
     \<lparr>iv_id = ''tritone'', iv_name = ''Tritone'', semitones = 6, iv_phase = 2,
       displayName = ''Tritone''\<rparr>,
     \<lparr>iv_id = ''major_third'', iv_name = ''Major Third'', semitones = 4, iv_phase = 3,
       displayName = ''Major 3rd''\<rparr>,
     \<lparr>iv_id = ''minor_third'', iv_name = ''Minor Third'', semitones = 3, iv_phase = 4,
       displayName = ''Minor 3rd''\<rparr>,
     \<lparr>iv_id = ''major_sixth'', iv_name = ''Major Sixth'', semitones = 9, iv_phase = 5,
       displayName = ''Major 6th''\<rparr>,
     \<lparr>iv_id = ''minor_sixth'', iv_name = ''Minor Sixth'', semitones = 8, iv_phase = 6,
       displayName = ''Minor 6th''\<rparr>,
     \<lparr>iv_id = ''major_second'', iv_name = ''Major Second'', semitones = 2, iv_phase = 7,
       displayName = ''Major 2nd''\<rparr>,
     \<lparr>iv_id = ''minor_second'', iv_name = ''Minor Second'', semitones = 1, iv_phase = 8,
       displayName = ''Minor 2nd''\<rparr>,
     \<lparr>iv_id = ''major_seventh'', iv_name = ''Major Seventh'', semitones = 11, iv_phase = 9,
       displayName = ''Major 7th''\<rparr>,
     \<lparr>iv_id = ''minor_seventh'', iv_name = ''Minor Seventh'', semitones = 10, iv_phase = 10,
       displayName = ''Minor 7th''\<rparr>]"

definition KEYS :: "string list" where
  "KEYS = [''C'', ''G'', ''D'', ''A'', ''E'']"

text \<open>\<open>Array.prototype.find\<close>: the first entry with the id, \<open>undefined\<close> (None) without one.\<close>

definition getIntervalById :: "string \<Rightarrow> interval option" where
  "getIntervalById ident = find (\<lambda>interval. iv_id interval = ident) INTERVALS"

definition getIntervalsForPhase :: "int \<Rightarrow> interval list" where
  "getIntervalsForPhase phase = filter (\<lambda>interval. iv_phase interval \<le> phase) INTERVALS"


section \<open>Phase progression (phaseProgression.js)\<close>

definition PHASE_MASTERY_THRESHOLD :: real where
  "PHASE_MASTERY_THRESHOLD = 0.8"

definition PHASE_MASTERY_SESSIONS :: nat where
  "PHASE_MASTERY_SESSIONS = 3"

definition MAX_PHASE :: int where
  "MAX_PHASE = 10"

text \<open>A stored session as \<open>checkPhaseUnlock\<close> reads it: integer score and total.\<close>

record session_record =
  rec_score :: int
  rec_total :: int

definition sessionAccuracy :: "session_record \<Rightarrow> real" where
  "sessionAccuracy session =
     (if rec_total session = 0 then 0
      else real_of_int (rec_score session) / real_of_int (rec_total session))"

definition checkPhaseUnlock :: "session_record list \<Rightarrow> int \<Rightarrow> int option" where
  "checkPhaseUnlock recentSessions currentPhase =
     (if currentPhase \<ge> MAX_PHASE then None
      else if length recentSessions < PHASE_MASTERY_SESSIONS then None
      else
        let window = take PHASE_MASTERY_SESSIONS recentSessions;
            allMastered = list_all (\<lambda>s. sessionAccuracy s \<ge> PHASE_MASTERY_THRESHOLD) window
        in if \<not> allMastered then None else Some (currentPhase + 1))"

text \<open>
  \<open>customActiveIds\<close> is \<open>Some ids\<close> for an array and \<open>None\<close> for null or undefined.
  \<open>.map(id => getIntervalById(id)).filter(Boolean)\<close> keeps the entries that were found.
\<close>

definition getActiveIntervalsForPhase :: "int \<Rightarrow> string list option \<Rightarrow> interval list" where
  "getActiveIntervalsForPhase phase customActiveIds =
     (let phaseIntervals = getIntervalsForPhase phase
      in case customActiveIds of
           None \<Rightarrow> phaseIntervals
         | Some ids \<Rightarrow>
             if length ids > 0 then
               let validIds = set (map iv_id phaseIntervals);
                   filtered = List.map_filter getIntervalById
                                (filter (\<lambda>ident. ident \<in> validIds) ids)
               in if length filtered > 0 then filtered else phaseIntervals
             else phaseIntervals)"


section \<open>Streak calculation (streakUtils.js)\<close>

text \<open>
  An instant is its number of milliseconds since the epoch, which is what \<open>new Date(d)\<close>
  holds for an ISO-8601 string \<open>d\<close>; reading the string is the platform's work and is
  not modelled. The date functions of the platform are those of the ECMAScript
  specification: \<open>Day\<close>, \<open>DayFromYear\<close>, \<open>DaysInYear\<close>, \<open>YearFromTime\<close> (the largest
  year that starts at or before the instant, found by a search upwards from an estimate
  below it), \<open>MonthFromTime\<close> and \<open>DateFromTime\<close> (the table of month starts), and
  \<open>MakeDay\<close>. \<open>Date.UTC\<close> reads a year from 0 to 99 as a year of the twentieth century.
\<close>

definition ONE_DAY_MS :: int where
  "ONE_DAY_MS = 24 * 60 * 60 * 1000"

definition Day :: "int \<Rightarrow> int" where
  "Day t = t div ONE_DAY_MS"

definition DayFromYear :: "int \<Rightarrow> int" where
  "DayFromYear y =
     365 * (y - 1970) + (y - 1969) div 4 - (y - 1901) div 100 + (y - 1601) div 400"

definition DaysInYear :: "int \<Rightarrow> int" where
  "DaysInYear y =
     (if y mod 4 \<noteq> 0 then 365
      else if y mod 100 \<noteq> 0 then 366
      else if y mod 400 \<noteq> 0 then 365
      else 366)"

function yearSearch :: "int \<Rightarrow> int \<Rightarrow> int" where
  "yearSearch day y = (if DayFromYear (y + 1) \<le> day then yearSearch day (y + 1) else y)"
  by pat_completeness auto
termination
proof (relation "measure (\<lambda>(day, y). nat (day - DayFromYear y))")
  show "wf (measure (\<lambda>(day, y). nat (day - DayFromYear y)))"
    by simp
next
  fix day y :: int
  assume reached: "DayFromYear (y + 1) \<le> day"
  have four: "(y - 1969) div 4 \<le> (y + 1 - 1969) div 4"
    by (rule zdiv_mono1) simp_all
  have hundred: "(y + 1 - 1901) div 100 \<le> (y - 1901) div 100 + 1"
    by linarith
  have fourHundred: "(y - 1601) div 400 \<le> (y + 1 - 1601) div 400"
    by (rule zdiv_mono1) simp_all
  have longer: "365 * (y - 1970) + a - b + c < 365 * (y + 1 - 1970) + a' - b' + c'"
    if "a \<le> a'" "b' \<le> b + 1" "c \<le> c'" for a a' b b' c c' :: int
    using that by simp
  have "DayFromYear y < DayFromYear (y + 1)"
    unfolding DayFromYear_def by (rule longer [OF four hundred fourHundred])
  with reached show "((day, y + 1), day, y) \<in> measure (\<lambda>(day, y). nat (day - DayFromYear y))"
    by simp
qed

declare yearSearch.simps [simp del]

definition YearFromTime :: "int \<Rightarrow> int" where
  "YearFromTime t =
     yearSearch (Day t)
       (if 0 \<le> Day t then 1970 + Day t div 366 else 1970 + Day t div 365)"

definition InLeapYear :: "int \<Rightarrow> int" where
  "InLeapYear t = (if DaysInYear (YearFromTime t) = 366 then 1 else 0)"

definition DayWithinYear :: "int \<Rightarrow> int" where
  "DayWithinYear t = Day t - DayFromYear (YearFromTime t)"

text \<open>The day of the year on which month \<open>m\<close> (0 to 11) starts.\<close>

definition monthStart :: "int \<Rightarrow> int \<Rightarrow> int" where
  "monthStart m leap =
     (if m = 0 then 0 else if m = 1 then 31 else if m = 2 then 59 + leap
      else if m = 3 then 90 + leap else if m = 4 then 120 + leap
      else if m = 5 then 151 + leap else if m = 6 then 181 + leap
      else if m = 7 then 212 + leap else if m = 8 then 243 + leap
      else if m = 9 then 273 + leap else if m = 10 then 304 + leap
      else 334 + leap)"

definition MonthFromTime :: "int \<Rightarrow> int" where
  "MonthFromTime t =
     (let d = DayWithinYear t; leap = InLeapYear t
      in if d < 31 then 0 else if d < 59 + leap then 1 else if d < 90 + leap then 2
         else if d < 120 + leap then 3 else if d < 151 + leap then 4
         else if d < 181 + leap then 5 else if d < 212 + leap then 6
         else if d < 243 + leap then 7 else if d < 273 + leap then 8
         else if d < 304 + leap then 9 else if d < 334 + leap then 10 else 11)"

definition DateFromTime :: "int \<Rightarrow> int" where
  "DateFromTime t = DayWithinYear t - monthStart (MonthFromTime t) (InLeapYear t) + 1"

definition MakeDay :: "int \<Rightarrow> int \<Rightarrow> int \<Rightarrow> int" where
  "MakeDay year month date =
     DayFromYear year + monthStart month (if DaysInYear year = 366 then 1 else 0) + date - 1"

definition DateUTC :: "int \<Rightarrow> int \<Rightarrow> int \<Rightarrow> int" where
  "DateUTC year month date =
     (let yr = (if 0 \<le> year \<and> year \<le> 99 then 1900 + year else year)
      in MakeDay yr month date * ONE_DAY_MS)"

text \<open>
  \<open>toDay\<close>: \<open>Date.UTC(date.getUTCFullYear(), date.getUTCMonth(), date.getUTCDate())\<close>.
\<close>

definition toDay :: "int \<Rightarrow> int" where
  "toDay d = DateUTC (YearFromTime d) (MonthFromTime d) (DateFromTime d)"

text \<open>The counting loop: \<open>ds\<close> are the days after index 0, in descending order.\<close>

fun streakLoop :: "int list \<Rightarrow> int \<Rightarrow> nat \<Rightarrow> nat" where
  "streakLoop [] prevDay streak = streak"
| "streakLoop (d # ds) prevDay streak =
     (if prevDay - d = ONE_DAY_MS then streakLoop ds d (streak + 1) else streak)"

text \<open>
  \<open>[...new Set(days)].sort((a, b) => b - a)\<close>: the distinct days in descending order
  (which occurrence of a day the set keeps does not show after sorting). The first
  argument is the evaluation time, \<open>new Date()\<close> in the source.
\<close>

definition calculateStreak :: "int \<Rightarrow> int list \<Rightarrow> nat" where
  "calculateStreak now sessionDates =
     (if sessionDates = [] then 0
      else
        let uniqueDays = rev (sort (remdups (map toDay sessionDates)));
            today = toDay now;
            yesterday = today - ONE_DAY_MS
        in case uniqueDays of
             [] \<Rightarrow> 0
           | d0 # ds \<Rightarrow>
               if d0 \<noteq> today \<and> d0 \<noteq> yesterday then 0
               else streakLoop ds d0 1)"


section \<open>Note frequencies (noteUtils.js)\<close>

definition SEMITONES_FROM_A4 :: "(string \<times> int) list" where
  "SEMITONES_FROM_A4 =
    [(''C3'', -21), (''C#3'', -20), (''D3'', -19), (''D#3'', -18), (''E3'', -17), (''F3'', -16),
     (''F#3'', -15), (''G3'', -14), (''G#3'', -13), (''A3'', -12), (''A#3'', -11), (''B3'', -10),
     (''C4'', -9), (''C#4'', -8), (''D4'', -7), (''D#4'', -6), (''E4'', -5), (''F4'', -4),
     (''F#4'', -3), (''G4'', -2), (''G#4'', -1), (''A4'', 0), (''A#4'', 1), (''B4'', 2)]"

definition NOTE_FREQUENCIES :: "(string \<times> real) list" where
  "NOTE_FREQUENCIES =
     map (\<lambda>(note, offset). (note, 440 * 2 powr (real_of_int offset / 12))) SEMITONES_FROM_A4"

datatype error =
    InvalidCount
  | EmptyArray
  | EmptyPool
  | UnknownInterval "string option"
  | UnknownKey "string option"
  | InvalidOffset int
  | InvalidArrayLength

definition getRootFrequency :: "string \<Rightarrow> error + real" where
  "getRootFrequency keyName =
     (case map_of NOTE_FREQUENCIES (keyName @ ''4'') of
        None \<Rightarrow> Inl (UnknownKey (Some keyName))
      | Some freq \<Rightarrow> Inr freq)"

definition getIntervalFrequency :: "real \<Rightarrow> int \<Rightarrow> error + real" where
  "getIntervalFrequency rootHz semis =
     (if semis < 0 then Inl (InvalidOffset semis)
      else Inr (rootHz * 2 powr (real_of_int semis / 12)))"


section \<open>Question generator (questionGenerator.js)\<close>

text \<open>
  \<open>Math.random()\<close> is a stream \<open>rnd\<close> of reals, meant to lie in \<open>[0, 1)\<close>, read at a
  running index: every function that draws takes the index and returns the next one.
  \<open>arr[i]\<close> is \<open>undefined\<close> (None) outside the array.
\<close>

definition arrGet :: "'a list \<Rightarrow> int \<Rightarrow> 'a option" where
  "arrGet arr i = (if 0 \<le> i \<and> i < int (length arr) then Some (arr ! nat i) else None)"

definition randomPick :: "string list \<Rightarrow> real \<Rightarrow> error + string option" where
  "randomPick arr r =
     (if length arr = 0 then Inl EmptyArray
      else Inr (arrGet arr \<lfloor>r * real (length arr)\<rfloor>))"

definition pickFromWeightedPool :: "string list \<Rightarrow> real \<Rightarrow> error + string option" where
  "pickFromWeightedPool pool r =
     (if length pool = 0 then Inl EmptyPool
      else Inr (arrGet pool \<lfloor>r * real (length pool)\<rfloor>))"

record question =
  key :: string
  intervalId :: string
  rootHz :: real
  intervalHz :: real

text \<open>
  The part shared by both generators once the key and the interval id are chosen: the
  catalog lookup, then the two frequencies. An \<open>undefined\<close> id is not in the catalog, and
  an \<open>undefined\<close> key has no frequency.
\<close>

definition resolveQuestion :: "string option \<Rightarrow> string option \<Rightarrow> error + question" where
  "resolveQuestion keyChoice idChoice =
     (case idChoice of
        None \<Rightarrow> Inl (UnknownInterval None)
      | Some ident \<Rightarrow>
          (case getIntervalById ident of
             None \<Rightarrow> Inl (UnknownInterval (Some ident))
           | Some interval \<Rightarrow>
               (case keyChoice of
                  None \<Rightarrow> Inl (UnknownKey None)
                | Some k \<Rightarrow>
                    (case getRootFrequency k of
                       Inl e \<Rightarrow> Inl e
                     | Inr rHz \<Rightarrow>
                         (case getIntervalFrequency rHz (semitones interval) of
                            Inl e \<Rightarrow> Inl e
                          | Inr iHz \<Rightarrow>
                              Inr \<lparr>key = k, intervalId = ident,
                                   rootHz = rHz, intervalHz = iHz\<rparr>)))))"

definition generateQuestion ::
  "string list \<Rightarrow> string list \<Rightarrow> (nat \<Rightarrow> real) \<Rightarrow> nat \<Rightarrow> error + (question \<times> nat)" where
  "generateQuestion activeIntervalIds availableKeys rnd i =
     (case randomPick availableKeys (rnd i) of
        Inl e \<Rightarrow> Inl e
      | Inr keyChoice \<Rightarrow>
          (case randomPick activeIntervalIds (rnd (i + 1)) of
             Inl e \<Rightarrow> Inl e
           | Inr idChoice \<Rightarrow>
               (case resolveQuestion keyChoice idChoice of
                  Inl e \<Rightarrow> Inl e
                | Inr q \<Rightarrow> Inr (q, i + 2))))"

text \<open>
  \<open>Array.from({ length: n }, f)\<close> first creates the array, which throws a \<open>RangeError\<close>
  for a length above \<open>2^32 - 1\<close>; then \<open>f\<close> is called \<open>n\<close> times, in index order, and
  the first call that throws ends the whole construction.
\<close>

fun arrayFill ::
  "nat \<Rightarrow> (nat \<Rightarrow> error + ('a \<times> nat)) \<Rightarrow> nat \<Rightarrow> error + ('a list \<times> nat)" where
  "arrayFill 0 f i = Inr ([], i)"
| "arrayFill (Suc n) f i =
     (case f i of
        Inl e \<Rightarrow> Inl e
      | Inr (x, i') \<Rightarrow>
          (case arrayFill n f i' of
             Inl e \<Rightarrow> Inl e
           | Inr (xs, i'') \<Rightarrow> Inr (x # xs, i'')))"

definition arrayFrom ::
  "nat \<Rightarrow> (nat \<Rightarrow> error + ('a \<times> nat)) \<Rightarrow> nat \<Rightarrow> error + ('a list \<times> nat)" where
  "arrayFrom n f i = (if n > 4294967295 then Inl InvalidArrayLength else arrayFill n f i)"

definition isInteger :: "real \<Rightarrow> bool" where
  "isInteger x = (real_of_int \<lfloor>x\<rfloor> = x)"

definition generateSession ::
  "string list \<Rightarrow> string list \<Rightarrow> real \<Rightarrow> (nat \<Rightarrow> real) \<Rightarrow> nat
     \<Rightarrow> error + (question list \<times> nat)" where
  "generateSession activeIntervalIds availableKeys count rnd i =
     (if \<not> isInteger count \<or> count < 1 then Inl InvalidCount
      else arrayFrom (nat \<lfloor>count\<rfloor>)
             (generateQuestion activeIntervalIds availableKeys rnd) i)"

definition adaptiveQuestion ::
  "string list \<Rightarrow> string list \<Rightarrow> (nat \<Rightarrow> real) \<Rightarrow> nat \<Rightarrow> error + (question \<times> nat)" where
  "adaptiveQuestion pool availableKeys rnd i =
     (case pickFromWeightedPool pool (rnd i) of
        Inl e \<Rightarrow> Inl e
      | Inr idChoice \<Rightarrow>
          (let keyChoice =
                 arrGet availableKeys \<lfloor>rnd (i + 1) * real (length availableKeys)\<rfloor>
           in case resolveQuestion keyChoice idChoice of
                Inl e \<Rightarrow> Inl e
              | Inr q \<Rightarrow> Inr (q, i + 2)))"

definition generateAdaptiveSession ::
  "string list \<Rightarrow> string list \<Rightarrow> real \<Rightarrow> interval_stat list option \<Rightarrow> (nat \<Rightarrow> real) \<Rightarrow> nat
     \<Rightarrow> error + (question list \<times> nat)" where
  "generateAdaptiveSession activeIntervalIds availableKeys count intervalStats rnd i =
     (if \<not> isInteger count \<or> count < 1 then Inl InvalidCount
      else
        let pool = buildWeightedPool activeIntervalIds intervalStats
        in arrayFrom (nat \<lfloor>count\<rfloor>) (adaptiveQuestion pool availableKeys rnd) i)"


section \<open>Session state machine (useQuizSession.js)\<close>

datatype phase = Idle | Answering | Feedback | Complete

record answer_result =
  res_intervalId :: string
  correct :: bool
  usedRetry :: bool

record session_state =
  questions :: "question list"
  currentIndex :: nat
  phase :: phase
  selectedAnswer :: "string option"
  isCorrect :: "bool option"
  retryUsed :: bool
  sessionResults :: "answer_result list"

record breakdown_entry =
  bd_correct :: nat
  bd_total :: nat

record payload =
  p_questions :: "question list"
  results :: "answer_result list"
  score :: nat
  total :: nat
  intervalBreakdown :: "(string \<times> breakdown_entry) list"

text \<open>
  What the hook asks of its injected collaborators, in the order asked: a call of
  \<open>audioEngine.playInterval\<close>, or a call of \<open>onSessionComplete\<close> with the payload.
\<close>

datatype effect = PlayInterval real real | SessionComplete payload

record hook =
  state :: session_state
  effects :: "effect list"

record config =
  intervalIds :: "string list"
  keys :: "string list"
  sessionLength :: real
  intervalStats :: "interval_stat list option"

text \<open>
  The breakdown object as the list of its entries in insertion order: a new id gets
  an entry of zeros first, then the entry of the id is counted up.
\<close>

definition breakdownStep ::
  "(string \<times> breakdown_entry) list \<Rightarrow> answer_result \<Rightarrow> (string \<times> breakdown_entry) list" where
  "breakdownStep acc r =
     (let acc1 = (if map_of acc (res_intervalId r) = None
                  then acc @ [(res_intervalId r, \<lparr>bd_correct = 0, bd_total = 0\<rparr>)]
                  else acc)
      in map (\<lambda>(k, e).
                if k = res_intervalId r
                then (k, \<lparr>bd_correct = bd_correct e + (if correct r then 1 else 0),
                          bd_total = bd_total e + 1\<rparr>)
                else (k, e)) acc1)"

definition buildBreakdown :: "answer_result list \<Rightarrow> (string \<times> breakdown_entry) list" where
  "buildBreakdown rs = foldl breakdownStep [] rs"

definition INITIAL_STATE :: session_state where
  "INITIAL_STATE =
     \<lparr>questions = [], currentIndex = 0, phase = Idle, selectedAnswer = None,
      isCorrect = None, retryUsed = False, sessionResults = []\<rparr>"

definition play :: "question option \<Rightarrow> effect list \<Rightarrow> effect list" where
  "play q effs =
     (case q of
        None \<Rightarrow> effs
      | Some question \<Rightarrow> effs @ [PlayInterval (rootHz question) (intervalHz question)])"

definition completionPayload :: "question list \<Rightarrow> answer_result list \<Rightarrow> payload" where
  "completionPayload qs newResults =
     \<lparr>p_questions = qs,
      results = newResults,
      score = length (filter correct newResults),
      total = length newResults,
      intervalBreakdown = buildBreakdown newResults\<rparr>"

definition computeAdvance :: "hook \<Rightarrow> answer_result list \<Rightarrow> hook" where
  "computeAdvance h newResults =
     (let prev = state h;
          qs = questions prev;
          nextIndex = currentIndex prev + 1
      in if nextIndex \<ge> length qs then
           \<lparr>state = prev\<lparr>currentIndex := nextIndex, phase := Complete,
                          sessionResults := newResults, selectedAnswer := None,
                          isCorrect := None, retryUsed := False\<rparr>,
            effects = effects h @ [SessionComplete (completionPayload qs newResults)]\<rparr>
         else
           \<lparr>state = prev\<lparr>currentIndex := nextIndex, phase := Answering,
                          sessionResults := newResults, selectedAnswer := None,
                          isCorrect := None, retryUsed := False\<rparr>,
            effects = play (arrGet qs (int nextIndex)) (effects h)\<rparr>)"

text \<open>
  \<open>startSession\<close> builds the questions before it writes the state: when the generator
  throws, the error leaves the call and the hook is as it was.
\<close>

definition startSession :: "config \<Rightarrow> (nat \<Rightarrow> real) \<Rightarrow> hook \<Rightarrow> error option \<times> hook" where
  "startSession cfg rnd h =
     (let hasStats = (case intervalStats cfg of None \<Rightarrow> False | Some ss \<Rightarrow> length ss > 0);
          generated =
            (if hasStats
             then generateAdaptiveSession (intervalIds cfg) (keys cfg) (sessionLength cfg)
                    (intervalStats cfg) rnd 0
             else generateSession (intervalIds cfg) (keys cfg) (sessionLength cfg) rnd 0)
      in case generated of
           Inl e \<Rightarrow> (Some e, h)
         | Inr (qs, _) \<Rightarrow>
             (None,
              \<lparr>state = INITIAL_STATE\<lparr>questions := qs, phase := Answering\<rparr>,
               effects = play (arrGet qs 0) (effects h)\<rparr>))"

definition playCurrentQuestion :: "hook \<Rightarrow> hook" where
  "playCurrentQuestion h =
     h\<lparr>effects := play (arrGet (questions (state h)) (int (currentIndex (state h))))
                     (effects h)\<rparr>"

definition submitAnswer :: "string \<Rightarrow> hook \<Rightarrow> hook" where
  "submitAnswer answeredIntervalId h =
     (let prev = state h
      in case arrGet (questions prev) (int (currentIndex prev)) of
           None \<Rightarrow> h
         | Some currentQuestion \<Rightarrow>
             if answeredIntervalId = intervalId currentQuestion then
               computeAdvance h
                 (sessionResults prev @
                    [\<lparr>res_intervalId = intervalId currentQuestion, correct = True,
                      usedRetry = retryUsed prev\<rparr>])
             else if \<not> retryUsed prev then
               \<lparr>state = prev\<lparr>selectedAnswer := Some answeredIntervalId,
                              isCorrect := Some False, phase := Feedback,
                              retryUsed := True\<rparr>,
                effects = play (Some currentQuestion) (effects h)\<rparr>
             else
               computeAdvance h
                 (sessionResults prev @
                    [\<lparr>res_intervalId = intervalId currentQuestion, correct = False,
                      usedRetry = True\<rparr>]))"

definition advanceToNext :: "hook \<Rightarrow> hook" where
  "advanceToNext h = computeAdvance h (sessionResults (state h))"

definition getCurrentQuestion :: "hook \<Rightarrow> question option" where
  "getCurrentQuestion h = arrGet (questions (state h)) (int (currentIndex (state h)))"

definition INITIAL_HOOK :: hook where
  "INITIAL_HOOK = \<lparr>state = INITIAL_STATE, effects = []\<rparr>"

text \<open>The calls a caller can make on a started hook, and a run of them.\<close>

datatype event = Submit string | Advance

fun step :: "hook \<Rightarrow> event \<Rightarrow> hook" where
  "step h (Submit a) = submitAnswer a h"
| "step h Advance = advanceToNext h"

definition run :: "hook \<Rightarrow> event list \<Rightarrow> hook" where
  "run h evs = foldl step h evs"

fun completions :: "effect list \<Rightarrow> payload list" where
  "completions [] = []"
| "completions (PlayInterval r i # effs) = completions effs"
| "completions (SessionComplete p # effs) = p # completions effs"


section \<open>The specification's wording of the rules\<close>

text \<open>
  A session meets the mastery threshold when its score is at least 80 percent of its
  total; a session with total 0 counts as 0 percent and does not.
\<close>

definition mastered :: "session_record \<Rightarrow> bool" where
  "mastered s =
     (rec_total s \<noteq> 0 \<and> real_of_int (rec_score s) / real_of_int (rec_total s) \<ge> 0.8)"

text \<open>An id is valid for a phase when its catalog entry exists and is unlocked by then.\<close>

definition validForPhase :: "int \<Rightarrow> string \<Rightarrow> bool" where
  "validForPhase ph ident =
     (case getIntervalById ident of None \<Rightarrow> False | Some interval \<Rightarrow> iv_phase interval \<le> ph)"

text \<open>The distinct days of the timestamps, most recent first, as the streak reads them.\<close>

definition uniqueDaysOf :: "int list \<Rightarrow> int list" where
  "uniqueDaysOf ts = rev (sort (remdups (map toDay ts)))"

text \<open>A key name is known when octave 4 of the frequency table has it.\<close>

definition knownKey :: "string \<Rightarrow> bool" where
  "knownKey k = (map_of NOTE_FREQUENCIES (k @ ''4'') \<noteq> None)"


text \<open>The entry that a random number draws from a list: none from an empty list.\<close>

definition drawn :: "string list \<Rightarrow> real \<Rightarrow> string option" where
  "drawn xs r = arrGet xs \<lfloor>r * real (length xs)\<rfloor>"

text \<open>A draw is good when the key drawn is a known key and the id drawn is in the catalog.\<close>

definition drawOk :: "string option \<Rightarrow> string option \<Rightarrow> bool" where
  "drawOk keyChoice idChoice =
     ((case keyChoice of None \<Rightarrow> False | Some k \<Rightarrow> knownKey k) \<and>
      (case idChoice of None \<Rightarrow> False | Some ident \<Rightarrow> getIntervalById ident \<noteq> None))"

text \<open>
  The draws for question \<open>j\<close> of a session. Without stats the key is drawn first and
  the id second, from the interval ids; with stats the id is drawn first, from the
  weighted pool, and the key second.
\<close>

definition drawsValid :: "config \<Rightarrow> (nat \<Rightarrow> real) \<Rightarrow> nat \<Rightarrow> bool" where
  "drawsValid cfg rnd j =
     (if (case intervalStats cfg of None \<Rightarrow> False | Some ss \<Rightarrow> ss \<noteq> [])
      then drawOk (drawn (keys cfg) (rnd (2 * j + 1)))
             (drawn (buildWeightedPool (intervalIds cfg) (intervalStats cfg)) (rnd (2 * j)))
      else drawOk (drawn (keys cfg) (rnd (2 * j))) (drawn (intervalIds cfg) (rnd (2 * j + 1))))"

text \<open>
  Recording a result and advancing, in the words of the specification: the result is
  appended and the fields of the question are reset; before the last question the index
  moves on, the phase is \<open>answering\<close> and the audio of the new question is triggered;
  at the last question the phase is \<open>complete\<close> and the payload is emitted, with the
  score the number of correct results and the total the number of results.
\<close>

definition resolvedWith :: "hook \<Rightarrow> answer_result \<Rightarrow> hook" where
  "resolvedWith h r =
     (let s = state h; rs = sessionResults s @ [r]; n = currentIndex s + 1
      in if n < length (questions s) then
           \<lparr>state = s\<lparr>currentIndex := n, phase := Answering, selectedAnswer := None,
                       isCorrect := None, retryUsed := False, sessionResults := rs\<rparr>,
            effects = effects h @
              [PlayInterval (rootHz (questions s ! n)) (intervalHz (questions s ! n))]\<rparr>
         else
           \<lparr>state = s\<lparr>currentIndex := n, phase := Complete, selectedAnswer := None,
                       isCorrect := None, retryUsed := False, sessionResults := rs\<rparr>,
            effects = effects h @
              [SessionComplete
                 \<lparr>p_questions = questions s, results = rs,
                  score = length (filter correct rs), total = length rs,
                  intervalBreakdown = buildBreakdown rs\<rparr>]\<rparr>)"

section \<open>Auxiliary notions for the session proofs\<close>

text \<open>The inputs on which every draw of a question must fail.\<close>

definition badInput :: "string list \<Rightarrow> string list \<Rightarrow> bool" where
  "badInput ids ks =
     (ids = [] \<or> ks = [] \<or> (\<forall>k\<in>set ks. \<not> knownKey k) \<or>
      (\<forall>i\<in>set ids. getIntervalById i = None))"

text \<open>A complete hook has no question at its index.\<close>

definition settled :: "hook \<Rightarrow> bool" where
  "settled h =
     (phase (state h) = Complete \<longrightarrow> length (questions (state h)) \<le> currentIndex (state h))"

text \<open>A run in which \<open>advanceToNext\<close> is never called on a hook that is already complete.\<close>

fun guarded :: "hook \<Rightarrow> event list \<Rightarrow> bool" where
  "guarded h [] = True"
| "guarded h (ev # evs) =
     (\<not> (ev = Advance \<and> phase (state h) = Complete) \<and> guarded (step h ev) evs)"

text \<open>
  The invariant of such a run: one result for each question passed, except the
  \<open>skipped\<close> ones that \<open>advanceToNext\<close> passed, and the payload emitted exactly when
  the phase is complete. \<open>before\<close> are the payloads of earlier runs of the hook.
\<close>

definition paced :: "question list \<Rightarrow> payload list \<Rightarrow> nat \<Rightarrow> hook \<Rightarrow> bool" where
  "paced qs before skipped h =
     (questions (state h) = qs \<and>
      length (sessionResults (state h)) + skipped = currentIndex (state h) \<and>
      currentIndex (state h) \<le> length qs \<and>
      (phase (state h) = Complete) = (currentIndex (state h) = length qs) \<and>
      completions (effects h) =
        before @ (if phase (state h) = Complete
                  then [completionPayload qs (sessionResults (state h))] else []))"

text \<open>The results so far belong to the questions passed, in order.\<close>

definition oneResultEach :: "hook \<Rightarrow> bool" where
  "oneResultEach h =
     (currentIndex (state h) \<le> length (questions (state h)) \<and>
      map res_intervalId (sessionResults (state h)) =
        map intervalId (take (currentIndex (state h)) (questions (state h))))"

text \<open>Each answer to an open question moves this measure up.\<close>

definition progress :: "hook \<Rightarrow> nat" where
  "progress h = 2 * currentIndex (state h) + (if retryUsed (state h) then 1 else 0)"


section \<open>Concrete inputs\<close>

text \<open>A random source that always draws index 0.\<close>

definition rnd0 :: "nat \<Rightarrow> real" where
  "rnd0 n = 0"

text \<open>A random source that always draws the middle of a list.\<close>

definition rndHalf :: "nat \<Rightarrow> real" where
  "rndHalf n = 1 / 2"

definition cfgOne :: config where
  "cfgOne = \<lparr>intervalIds = [''root''], keys = [''C''], sessionLength = 1,
             intervalStats = None\<rparr>"

definition cfgMixed :: config where
  "cfgMixed = \<lparr>intervalIds = [''root'', ''bogus''], keys = [''C''], sessionLength = 1,
               intervalStats = None\<rparr>"

definition cfgNoKeys :: config where
  "cfgNoKeys = \<lparr>intervalIds = [''root''], keys = [], sessionLength = 1,
                intervalStats = None\<rparr>"

text \<open>A hook in the middle of a session of two questions, both the root on A.\<close>

definition questionA :: question where
  "questionA = \<lparr>key = ''A'', intervalId = ''root'', rootHz = 440, intervalHz = 440\<rparr>"

definition hookA :: hook where
  "hookA = \<lparr>state = INITIAL_STATE\<lparr>questions := [questionA, questionA], phase := Answering\<rparr>,
            effects = []\<rparr>"


section \<open>Properties of the adaptive weighting\<close>

lemma statMap_snoc:
  "statMap (ss @ [s]) = (statMap ss)(stat_intervalId s \<mapsto> accuracy s)"
  by (simp add: statMap_def)

lemma statMapLookup_statMap:
  "statMapLookup (statMap ss) ident = accuracyOf (Some ss) ident"
proof (induction ss rule: rev_induct)
  case Nil
  show ?case by (simp add: statMap_def statMapLookup_def accuracyOf_def)
next
  case (snoc s ss)
  show ?case
  proof (cases "stat_intervalId s = ident")
    case True
    then show ?thesis
      by (simp add: statMap_snoc statMapLookup_def accuracyOf_def)
  next
    case False
    with snoc show ?thesis
      by (simp add: statMap_snoc statMapLookup_def accuracyOf_def)
  qed
qed

lemma accuracyOf_None: "accuracyOf None ident = None"
  by (simp add: accuracyOf_def)

lemma pool_foldl:
  "foldl (\<lambda>pool ident. pool @ replicate (w ident) ident) acc ids =
     acc @ concat (map (\<lambda>ident. replicate (w ident) ident) ids)"
  by (induction ids arbitrary: acc) simp_all

lemma buildWeightedPool_concat:
  "buildWeightedPool ids stats =
     concat (map (\<lambda>ident. replicate (getWeight (accuracyOf stats ident)) ident) ids)"
proof (cases stats)
  case None
  then show ?thesis
    by (simp add: buildWeightedPool_def pool_foldl accuracyOf_None
        statMap_def statMapLookup_def)
next
  case (Some ss)
  then show ?thesis
    by (simp add: buildWeightedPool_def pool_foldl statMapLookup_statMap)
qed

lemma length_concat_replicate:
  "length (concat (map (\<lambda>ident. replicate (w ident) ident) ids)) = sum_list (map w ids)"
  by (induction ids) simp_all

lemma set_concat_replicate:
  "set (concat (map (\<lambda>ident. replicate (w ident) ident) ids)) \<subseteq> set ids"
  by (induction ids) auto

text \<open>
  C4. The weight of an accuracy is one of 1, 3 and 5: 3 for no data, 5 below 0.5, 3 from
  0.5 up to but excluding 0.8, and 1 from 0.8 on; the boundaries 0.5 and 0.8 belong to
  the bracket of the lower weight.
\<close>

theorem getWeight_brackets:
  "getWeight a \<in> {1, 3, 5} \<and>
   getWeight None = 3 \<and>
   (x < 0.5 \<longrightarrow> getWeight (Some x) = 5) \<and>
   (0.5 \<le> y \<and> y < 0.8 \<longrightarrow> getWeight (Some y) = 3) \<and>
   (0.8 \<le> z \<longrightarrow> getWeight (Some z) = 1) \<and>
   getWeight (Some 0.5) = 3 \<and>
   getWeight (Some 0.8) = 1"
  by (simp add: getWeight_def WEIGHT_NO_DATA_def WEIGHT_STRUGGLING_def
      WEIGHT_NEEDS_WORK_def WEIGHT_STRONG_def split: option.split)

theorem getWeight_brackets_witness:
  "getWeight (Some 0.49999) = 5 \<and> getWeight (Some 0.79999) = 3 \<and> getWeight (Some 0.9) = 1"
  using getWeight_brackets [of None "0.49999" "0.79999" "0.9"] by simp

text \<open>
  C5. The pool has as many elements as the weights of the active ids add up to, the
  weight of an id being computed from its accuracy in the stats (null when the id has
  no record); every element of the pool is an active id; no active id gives the empty
  pool.
\<close>

theorem buildWeightedPool_length_members:
  "length (buildWeightedPool activeIds stats) =
     sum_list (map (\<lambda>ident. getWeight (accuracyOf stats ident)) activeIds) \<and>
   set (buildWeightedPool activeIds stats) \<subseteq> set activeIds \<and>
   buildWeightedPool [] stats = []"
  using set_concat_replicate [of "\<lambda>ident. getWeight (accuracyOf stats ident)" activeIds]
  by (simp add: buildWeightedPool_concat length_concat_replicate)

theorem buildWeightedPool_length_members_witness:
  "length (buildWeightedPool [''root'', ''tritone'']
      (Some [\<lparr>stat_intervalId = ''root'', accuracy = Some 0.9\<rparr>])) = 4"
  using buildWeightedPool_length_members
    [of "[''root'', ''tritone'']" "Some [\<lparr>stat_intervalId = ''root'', accuracy = Some 0.9\<rparr>]"]
  by (simp add: accuracyOf_def getWeight_def WEIGHT_NO_DATA_def WEIGHT_STRONG_def)


section \<open>Properties of the phase progression\<close>

lemma mastered_iff: "(sessionAccuracy s \<ge> PHASE_MASTERY_THRESHOLD) = mastered s"
  by (simp add: sessionAccuracy_def PHASE_MASTERY_THRESHOLD_def mastered_def)

lemma take3: "3 \<le> length ss \<Longrightarrow> take 3 ss = [ss ! 0, ss ! 1, ss ! 2]"
  by (cases ss; cases "tl ss"; cases "tl (tl ss)") (auto simp: numeral_3_eq_3)

text \<open>
  C3. \<open>checkPhaseUnlock\<close> gives null at phase 10 (and beyond), gives null for fewer
  than 3 sessions, and otherwise gives the next phase exactly when each of the first 3
  sessions meets the mastery threshold (a total of 0 does not); the sessions after the
  first 3 have no influence.
\<close>

theorem checkPhaseUnlock_rule:
  "(10 \<le> p \<longrightarrow> checkPhaseUnlock ss p = None) \<and>
   (length ss < 3 \<longrightarrow> checkPhaseUnlock ss p = None) \<and>
   (p < 10 \<and> 3 \<le> length ss \<longrightarrow>
      checkPhaseUnlock ss p =
        (if mastered (ss ! 0) \<and> mastered (ss ! 1) \<and> mastered (ss ! 2)
         then Some (p + 1) else None)) \<and>
   checkPhaseUnlock (a # b # c # older) p = checkPhaseUnlock [a, b, c] p"
  by (simp add: checkPhaseUnlock_def MAX_PHASE_def PHASE_MASTERY_SESSIONS_def mastered_iff take3)

theorem checkPhaseUnlock_rule_witness:
  "checkPhaseUnlock
     [\<lparr>rec_score = 4, rec_total = 5\<rparr>, \<lparr>rec_score = 5, rec_total = 5\<rparr>,
      \<lparr>rec_score = 8, rec_total = 10\<rparr>, \<lparr>rec_score = 0, rec_total = 5\<rparr>] 1 = Some 2 \<and>
   checkPhaseUnlock [\<lparr>rec_score = 4, rec_total = 5\<rparr>, \<lparr>rec_score = 5, rec_total = 5\<rparr>] 1 = None \<and>
   checkPhaseUnlock [] 10 = None"
  using checkPhaseUnlock_rule
    [of 1 "[\<lparr>rec_score = 4, rec_total = 5\<rparr>, \<lparr>rec_score = 5, rec_total = 5\<rparr>,
            \<lparr>rec_score = 8, rec_total = 10\<rparr>, \<lparr>rec_score = 0, rec_total = 5\<rparr>]"]
    checkPhaseUnlock_rule
    [of 1 "[\<lparr>rec_score = 4, rec_total = 5\<rparr>, \<lparr>rec_score = 5, rec_total = 5\<rparr>]"]
    checkPhaseUnlock_rule [of 10 "[]"]
  by (simp add: mastered_def)

lemma find_distinct_key:
  "distinct (map f xs) \<Longrightarrow>
     (\<exists>x\<in>set xs. f x = i \<and> P x) = (case find (\<lambda>x. f x = i) xs of None \<Rightarrow> False | Some x \<Rightarrow> P x)"
  by (induction xs) (auto simp: image_iff)

lemma INTERVALS_distinct_ids: "distinct (map iv_id INTERVALS)"
  by (simp add: INTERVALS_def)

lemma validIds_iff:
  "(ident \<in> set (map iv_id (getIntervalsForPhase ph))) = validForPhase ph ident"
proof -
  have "(ident \<in> set (map iv_id (getIntervalsForPhase ph))) =
        (\<exists>x\<in>set INTERVALS. iv_id x = ident \<and> iv_phase x \<le> ph)"
    by (auto simp: getIntervalsForPhase_def)
  also have "\<dots> = validForPhase ph ident"
    unfolding validForPhase_def getIntervalById_def
    by (rule find_distinct_key [OF INTERVALS_distinct_ids])
  finally show ?thesis .
qed

lemma map_filter_found:
  "\<forall>x\<in>set xs. f x \<noteq> None \<Longrightarrow> map Some (List.map_filter f xs) = map f xs"
  by (induction xs) auto

lemma validForPhase_found: "validForPhase ph ident \<Longrightarrow> getIntervalById ident \<noteq> None"
  by (auto simp: validForPhase_def split: option.splits)

text \<open>
  C9. With a non-empty array of custom ids of which at least one is valid for the phase,
  \<open>getActiveIntervalsForPhase\<close> returns the catalog entries of the valid custom ids, in
  the order of the array; in every other case (no array, an empty one, or none of its
  ids valid for the phase) it returns all catalog entries unlocked by the phase.
\<close>

theorem getActiveIntervalsForPhase_rule:
  "(customIds = Some ids \<and> filter (validForPhase ph) ids \<noteq> [] \<longrightarrow>
      map Some (getActiveIntervalsForPhase ph customIds) =
        map getIntervalById (filter (validForPhase ph) ids)) \<and>
   (customIds = None \<or> customIds = Some [] \<or>
      (customIds = Some ids \<and> filter (validForPhase ph) ids = []) \<longrightarrow>
      getActiveIntervalsForPhase ph customIds =
        filter (\<lambda>interval. iv_phase interval \<le> ph) INTERVALS)"
proof -
  have found: "map Some (List.map_filter getIntervalById (filter (validForPhase ph) ids)) =
        map getIntervalById (filter (validForPhase ph) ids)"
    by (rule map_filter_found) (use validForPhase_found in auto)
  have nonempty: "filter (validForPhase ph) ids \<noteq> [] \<Longrightarrow>
      List.map_filter getIntervalById (filter (validForPhase ph) ids) \<noteq> []"
    using found by (metis map_is_Nil_conv)
  have empty: "filter (validForPhase ph) ids = [] \<Longrightarrow>
      List.map_filter getIntervalById (filter (validForPhase ph) ids) = []"
    by (simp add: List.map_filter_simps)
  show ?thesis
    unfolding getActiveIntervalsForPhase_def Let_def validIds_iff
    using found nonempty empty
    by (auto simp: getIntervalsForPhase_def)
qed

theorem getActiveIntervalsForPhase_rule_witness:
  "map Some (getActiveIntervalsForPhase 2 (Some [''tritone'', ''bogus'', ''major_third'', ''root''])) =
     [getIntervalById ''tritone'', getIntervalById ''root''] \<and>
   getActiveIntervalsForPhase 2 (Some [''major_third'']) =
     filter (\<lambda>interval. iv_phase interval \<le> 2) INTERVALS"
  using getActiveIntervalsForPhase_rule
    [of "Some [''tritone'', ''bogus'', ''major_third'', ''root'']"
        "[''tritone'', ''bogus'', ''major_third'', ''root'']" 2]
    getActiveIntervalsForPhase_rule [of "Some [''major_third'']" "[''major_third'']" 2]
  by (simp add: validForPhase_def getIntervalById_def INTERVALS_def)


section \<open>Properties of the streak calculation\<close>

lemma ONE_DAY_pos: "0 < ONE_DAY_MS" by (simp add: ONE_DAY_MS_def)

lemma streakLoop_spec:
  "sorted_wrt (>) (prev # ds) \<Longrightarrow> \<forall>x\<in>set (prev # ds). ONE_DAY_MS dvd x \<Longrightarrow>
   \<exists>j. streakLoop ds prev s = s + j \<and>
       (\<forall>i\<le>j. prev - int i * ONE_DAY_MS \<in> set (prev # ds)) \<and>
       prev - (int j + 1) * ONE_DAY_MS \<notin> set (prev # ds)"
proof (induction ds arbitrary: prev s)
  case Nil
  then show ?case using ONE_DAY_pos by (intro exI[of _ 0]) auto
next
  case (Cons d ds)
  show ?case
  proof (cases "prev - d = ONE_DAY_MS")
    case True
    from Cons.prems have "sorted_wrt (>) (d # ds)" "\<forall>x\<in>set (d # ds). ONE_DAY_MS dvd x" by auto
    from Cons.IH[OF this, of "s + 1"] obtain j where
      j: "streakLoop ds d (s + 1) = s + 1 + j"
         "\<forall>i\<le>j. d - int i * ONE_DAY_MS \<in> set (d # ds)"
         "d - (int j + 1) * ONE_DAY_MS \<notin> set (d # ds)" by blast
    have d: "d = prev - ONE_DAY_MS" using True by simp
    have a: "streakLoop (d # ds) prev s = s + Suc j" using True j(1) by simp
    have b: "\<forall>i\<le>Suc j. prev - int i * ONE_DAY_MS \<in> set (prev # d # ds)"
    proof (intro allI impI)
      fix i assume i: "i \<le> Suc j"
      show "prev - int i * ONE_DAY_MS \<in> set (prev # d # ds)"
      proof (cases i)
        case 0 then show ?thesis by simp
      next
        case (Suc k)
        then have "k \<le> j" using i by simp
        with j(2) have "d - int k * ONE_DAY_MS \<in> set (d # ds)" by blast
        moreover have "prev - int i * ONE_DAY_MS = d - int k * ONE_DAY_MS"
          using d Suc by (simp add: algebra_simps)
        ultimately show ?thesis by simp
      qed
    qed
    have e: "prev - (int (Suc j) + 1) * ONE_DAY_MS = d - (int j + 1) * ONE_DAY_MS"
      using d by (simp add: algebra_simps)
    have "prev - (int (Suc j) + 1) * ONE_DAY_MS \<noteq> prev"
      using ONE_DAY_pos by (simp add: algebra_simps) (smt (verit) mult_nonneg_nonneg of_nat_0_le_iff)
    with j(3) e have c: "prev - (int (Suc j) + 1) * ONE_DAY_MS \<notin> set (prev # d # ds)"
      by simp
    from a b c show ?thesis by blast
  next
    case False
    have lt: "\<forall>x\<in>set (d # ds). x \<le> d" "d < prev" using Cons.prems(1) by auto
    have dv: "ONE_DAY_MS dvd prev" "ONE_DAY_MS dvd d" using Cons.prems(2) by auto
    then obtain a b where ab: "prev = ONE_DAY_MS * a" "d = ONE_DAY_MS * b" by (auto elim!: dvdE)
    with lt(2) ONE_DAY_pos have "b < a" by (simp add: mult_less_cancel_left_pos)
    moreover from False ab have "b \<noteq> a - 1" by (auto simp: algebra_simps)
    ultimately have "b \<le> a - 2" by simp
    then have "ONE_DAY_MS * b \<le> ONE_DAY_MS * (a - 2)" using ONE_DAY_pos by simp
    then have "d < prev - ONE_DAY_MS" using ab ONE_DAY_pos by (simp add: algebra_simps)
    with lt(1) have "prev - ONE_DAY_MS \<notin> set (d # ds)" by auto
    moreover have "prev - ONE_DAY_MS \<noteq> prev" using ONE_DAY_pos by simp
    ultimately show ?thesis using False by (intro exI[of _ 0]) auto
  qed
qed

lemma uniqueDays_set: "set (uniqueDaysOf ts) = toDay ` set ts"
  by (simp add: uniqueDaysOf_def)

lemma uniqueDays_desc: "sorted_wrt (>) (uniqueDaysOf ts)"
proof -
  have "sorted_wrt (<) (sort (remdups (map toDay ts)))"
    by (simp add: strict_sorted_iff)
  then show ?thesis
    by (simp add: uniqueDaysOf_def sorted_wrt_rev)
qed

lemma toDay_multiple: "ONE_DAY_MS dvd toDay t"
  by (simp add: toDay_def DateUTC_def Let_def)

lemma uniqueDays_dvd: "\<forall>x\<in>set (uniqueDaysOf ts). ONE_DAY_MS dvd x"
  by (auto simp: uniqueDays_set toDay_multiple)

lemma desc_hd_Max: "sorted_wrt (>) (d0 # ds) \<Longrightarrow> Max (set (d0 # ds)) = (d0::int)"
  by (intro Max_eqI) auto

text \<open>
  The rule of the streak on the days that \<open>toDay\<close> gives: 0 for no timestamp and when
  the most recent day is neither today nor yesterday; otherwise the number \<open>k \<ge> 1\<close> of
  consecutive days that end at the most recent day.
\<close>

lemma calculateStreak_days:
  "calculateStreak now [] = 0 \<and>
   (ts \<noteq> [] \<and> Max (toDay ` set ts) \<noteq> toDay now \<and>
      Max (toDay ` set ts) \<noteq> toDay now - ONE_DAY_MS \<longrightarrow> calculateStreak now ts = 0) \<and>
   (ts \<noteq> [] \<and> (Max (toDay ` set ts) = toDay now \<or>
      Max (toDay ` set ts) = toDay now - ONE_DAY_MS) \<longrightarrow>
      1 \<le> calculateStreak now ts \<and>
      (\<forall>i < calculateStreak now ts.
          Max (toDay ` set ts) - int i * ONE_DAY_MS \<in> toDay ` set ts) \<and>
      Max (toDay ` set ts) - int (calculateStreak now ts) * ONE_DAY_MS \<notin> toDay ` set ts)"
proof (cases "ts = []")
  case True
  then show ?thesis by (simp add: calculateStreak_def)
next
  case False
  then have "uniqueDaysOf ts \<noteq> []"
    using uniqueDays_set [of ts] by (metis image_is_empty set_empty)
  then obtain d0 ds where U: "uniqueDaysOf ts = d0 # ds"
    by (cases "uniqueDaysOf ts") auto
  have desc: "sorted_wrt (>) (d0 # ds)" using uniqueDays_desc [of ts] U by simp
  have dvd: "\<forall>x\<in>set (d0 # ds). ONE_DAY_MS dvd x" using uniqueDays_dvd [of ts] U by simp
  have days: "set (d0 # ds) = toDay ` set ts" using uniqueDays_set [of ts] U by simp
  have top: "Max (toDay ` set ts) = d0" using desc_hd_Max [OF desc] days by simp
  have cs: "calculateStreak now ts =
      (if d0 \<noteq> toDay now \<and> d0 \<noteq> toDay now - ONE_DAY_MS then 0 else streakLoop ds d0 1)"
    using False U by (simp add: calculateStreak_def uniqueDaysOf_def Let_def)
  from streakLoop_spec [OF desc dvd, of 1] obtain j where
    j: "streakLoop ds d0 1 = 1 + j"
       "\<forall>i\<le>j. d0 - int i * ONE_DAY_MS \<in> set (d0 # ds)"
       "d0 - (int j + 1) * ONE_DAY_MS \<notin> set (d0 # ds)" by blast
  have inside: "\<forall>i<1 + j. d0 - int i * ONE_DAY_MS \<in> toDay ` set ts"
  proof (intro allI impI)
    fix i assume "i < 1 + j"
    then have "i \<le> j" by simp
    with j(2) have "d0 - int i * ONE_DAY_MS \<in> set (d0 # ds)" by blast
    then show "d0 - int i * ONE_DAY_MS \<in> toDay ` set ts" unfolding days .
  qed
  have e: "int j + 1 = int (1 + j)" by simp
  have outside: "d0 - int (1 + j) * ONE_DAY_MS \<notin> toDay ` set ts"
    using j(3) unfolding days e .
  show ?thesis
    unfolding top cs using j(1) inside outside by (simp add: calculateStreak_def)
qed

text \<open>
  \<open>YearFromTime\<close> is the year of the ECMAScript specification: the year that starts at
  or before the day of the instant while the next year starts after it.
\<close>

lemma leapTerm_nonneg:
  "0 \<le> k \<Longrightarrow> (k + 1) div 4 - (k + 69) div 100 + (k + 369) div 400 \<le> (k::int)"
proof -
  assume k: "0 \<le> k"
  have l1: "4 * ((k + 1) div 4) \<le> k + 1" by linarith
  have l2: "0 \<le> (k + 69) div 100" using k by simp
  have l3: "400 * ((k + 369) div 400) \<le> k + 369" by linarith
  show ?thesis
  proof (cases "k \<le> 2")
    case True
    with k have "(k + 1) div 4 = 0" "(k + 369) div 400 = 0" by simp_all
    with l2 k show ?thesis by linarith
  next
    case False
    with l1 l2 l3 show ?thesis by linarith
  qed
qed

lemma leapTerm_neg:
  "k \<le> -1 \<Longrightarrow> (k + 1) div 4 - (k + 69) div 100 + (k + 369) div 400 \<le> (0::int)"
proof -
  assume k: "k \<le> -1"
  have l1: "4 * ((k + 1) div 4) \<le> k + 1" by linarith
  have l2: "k + 69 < 100 * ((k + 69) div 100) + 100" by linarith
  have l3: "400 * ((k + 369) div 400) \<le> k + 369" by linarith
  show ?thesis
  proof (cases "-7 \<le> k")
    case True
    with k have "(k + 1) div 4 \<le> 0" "(k + 69) div 100 = 0" "(k + 369) div 400 = 0"
      by simp_all
    then show ?thesis by linarith
  next
    case False
    with l1 l2 l3 show ?thesis by linarith
  qed
qed

lemma yearStart_below:
  "DayFromYear (if 0 \<le> day then 1970 + day div 366 else 1970 + day div 365) \<le> day"
proof (cases "0 \<le> day")
  case True
  define k where "k = day div 366"
  have k: "0 \<le> k" "366 * k \<le> day" using True by (simp_all add: k_def)
  have "DayFromYear (1970 + k) =
      365 * k + ((k + 1) div 4 - (k + 69) div 100 + (k + 369) div 400)"
    by (simp add: DayFromYear_def add.commute)
  with leapTerm_nonneg [OF k(1)] k(2) have "DayFromYear (1970 + k) \<le> day" by linarith
  with True show ?thesis by (simp add: k_def)
next
  case False
  define k where "k = day div 365"
  have k: "k \<le> -1" "365 * k \<le> day" using False by (simp_all add: k_def)
  have "DayFromYear (1970 + k) =
      365 * k + ((k + 1) div 4 - (k + 69) div 100 + (k + 369) div 400)"
    by (simp add: DayFromYear_def add.commute)
  with leapTerm_neg [OF k(1)] k(2) have "DayFromYear (1970 + k) \<le> day" by linarith
  with False show ?thesis by (simp add: k_def)
qed

lemma yearSearch_spec:
  "DayFromYear y \<le> day \<Longrightarrow>
     DayFromYear (yearSearch day y) \<le> day \<and> day < DayFromYear (yearSearch day y + 1)"
proof (induction day y rule: yearSearch.induct)
  case (1 day y)
  show ?case
  proof (cases "DayFromYear (y + 1) \<le> day")
    case True
    with "1.IH" have "DayFromYear (yearSearch day (y + 1)) \<le> day \<and>
        day < DayFromYear (yearSearch day (y + 1) + 1)" by simp
    moreover have "yearSearch day y = yearSearch day (y + 1)"
      using True by (subst yearSearch.simps) simp
    ultimately show ?thesis by simp
  next
    case False
    then have "yearSearch day y = y"
      by (subst yearSearch.simps) simp
    with False "1.prems" show ?thesis by simp
  qed
qed

lemma YearFromTime_spec:
  "DayFromYear (YearFromTime t) \<le> Day t \<and> Day t < DayFromYear (YearFromTime t + 1)"
  unfolding YearFromTime_def by (rule yearSearch_spec [OF yearStart_below])










section \<open>Properties of the question generator\<close>

lemma isInteger_iff: "isInteger x = (x \<in> \<int>)"
  unfolding isInteger_def by (metis Ints_of_int of_int_floor)

lemma arrGet_random:
  assumes "xs \<noteq> []" "0 \<le> r" "r < 1"
  shows "\<exists>x. arrGet xs \<lfloor>r * real (length xs)\<rfloor> = Some x \<and> x \<in> set xs"
proof -
  have n: "0 < real (length xs)" using assms(1) by simp
  have "0 \<le> r * real (length xs)" using assms(2) by simp
  then have lo: "0 \<le> \<lfloor>r * real (length xs)\<rfloor>" by simp
  have "r * real (length xs) < real (length xs)" using assms(3) n by simp
  then have hi: "\<lfloor>r * real (length xs)\<rfloor> < int (length xs)"
    by (simp add: floor_less_iff)
  from lo hi have "nat \<lfloor>r * real (length xs)\<rfloor> < length xs" by linarith
  with lo hi show ?thesis by (simp add: arrGet_def)
qed

lemma NOTE_FREQUENCIES_pos: "map_of NOTE_FREQUENCIES note = Some f \<Longrightarrow> 0 < f"
proof -
  assume a: "map_of NOTE_FREQUENCIES note = Some f"
  have "map_of NOTE_FREQUENCIES note =
        map_option (\<lambda>offset. 440 * 2 powr (real_of_int offset / 12)) (map_of SEMITONES_FROM_A4 note)"
    unfolding NOTE_FREQUENCIES_def by (simp add: map_of_map)
  with a show ?thesis by auto
qed

lemma getRootFrequency_known:
  "knownKey k \<Longrightarrow> \<exists>f. getRootFrequency k = Inr f \<and> 0 < f"
  by (auto simp: knownKey_def getRootFrequency_def dest: NOTE_FREQUENCIES_pos)

lemma getRootFrequency_unknown:
  "\<not> knownKey k \<Longrightarrow> getRootFrequency k = Inl (UnknownKey (Some k))"
  by (auto simp: knownKey_def getRootFrequency_def)

lemma getIntervalFrequency_ge:
  "0 \<le> s \<Longrightarrow> 0 < r \<Longrightarrow> \<exists>f. getIntervalFrequency r s = Inr f \<and> r \<le> f"
proof -
  assume s: "0 \<le> s" and r: "0 < r"
  have "1 \<le> (2::real) powr (real_of_int s / 12)"
    using s by (intro ge_one_powr_ge_zero) auto
  then have "r * 1 \<le> r * 2 powr (real_of_int s / 12)"
    using r by (intro mult_left_mono) auto
  with s show ?thesis by (simp add: getIntervalFrequency_def)
qed

lemma catalog_semitones: "getIntervalById ident = Some interval \<Longrightarrow> 0 \<le> semitones interval"
proof -
  assume "getIntervalById ident = Some interval"
  then have "interval \<in> set INTERVALS"
    by (auto simp: getIntervalById_def find_Some_iff)
  then show ?thesis by (auto simp: INTERVALS_def)
qed

lemma resolveQuestion_ok:
  assumes "getIntervalById ident \<noteq> None" "knownKey k"
  shows "\<exists>q. resolveQuestion (Some k) (Some ident) = Inr q \<and> key q = k \<and> intervalId q = ident
            \<and> rootHz q \<le> intervalHz q"
proof -
  from assms(1) obtain interval where iv: "getIntervalById ident = Some interval" by auto
  from getRootFrequency_known [OF assms(2)] obtain f where
    f: "getRootFrequency k = Inr f" "0 < f" by blast
  from getIntervalFrequency_ge [OF catalog_semitones [OF iv] f(2)] obtain g where
    g: "getIntervalFrequency f (semitones interval) = Inr g" "f \<le> g" by blast
  show ?thesis using iv f g by (simp add: resolveQuestion_def)
qed

lemma generateQuestion_ok:
  assumes "ids \<noteq> []" "ks \<noteq> []" "\<forall>i\<in>set ids. getIntervalById i \<noteq> None"
    "\<forall>k\<in>set ks. knownKey k" "\<forall>n. 0 \<le> rnd n \<and> rnd n < 1"
  shows "\<exists>q j. generateQuestion ids ks rnd i = Inr (q, j) \<and> intervalId q \<in> set ids
            \<and> key q \<in> set ks \<and> rootHz q \<le> intervalHz q"
proof -
  from arrGet_random [OF assms(2), of "rnd i"] assms(5) obtain k where
    k: "arrGet ks \<lfloor>rnd i * real (length ks)\<rfloor> = Some k" "k \<in> set ks" by blast
  from arrGet_random [OF assms(1), of "rnd (i + 1)"] assms(5) obtain ident where
    ident: "arrGet ids \<lfloor>rnd (i + 1) * real (length ids)\<rfloor> = Some ident" "ident \<in> set ids"
    by blast
  from resolveQuestion_ok [of ident k] assms(3,4) k(2) ident(2) obtain q where
    q: "resolveQuestion (Some k) (Some ident) = Inr q" "key q = k" "intervalId q = ident"
       "rootHz q \<le> intervalHz q" by blast
  show ?thesis
    using assms(1,2) k ident q by (simp add: generateQuestion_def randomPick_def)
qed

lemma arrayFill_ok:
  assumes "\<And>i. \<exists>x j. f i = Inr (x, j) \<and> P x"
  shows "\<exists>xs j. arrayFill n f i = Inr (xs, j) \<and> length xs = n \<and> (\<forall>x\<in>set xs. P x)"
proof (induction n arbitrary: i)
  case 0
  show ?case by simp
next
  case (Suc n)
  from assms [of i] obtain x i' where x: "f i = Inr (x, i')" "P x" by blast
  from Suc [of i'] obtain xs j where
    xs: "arrayFill n f i' = Inr (xs, j)" "length xs = n" "\<forall>x\<in>set xs. P x" by blast
  show ?case using x xs by simp
qed

lemma arrayFrom_ok:
  assumes "\<And>i. \<exists>x j. f i = Inr (x, j) \<and> P x" "n \<le> 4294967295"
  shows "\<exists>xs j. arrayFrom n f i = Inr (xs, j) \<and> length xs = n \<and> (\<forall>x\<in>set xs. P x)"
  using arrayFill_ok [of f P n i, OF assms(1)] assms(2) by (simp add: arrayFrom_def)

text \<open>
  C7 (amended). For non-empty lists of catalog interval ids and of known key names, a
  positive integer count below \<open>2^32\<close> and a random source in \<open>[0, 1)\<close>,
  \<open>generateSession\<close> returns exactly \<open>count\<close> questions, each with its interval id
  among the ids, its key among the keys, and an interval frequency not below the root
  frequency. For a count that is not a positive integer it fails with \<open>InvalidCount\<close>,
  whatever the lists.
\<close>

theorem generateSession_rule:
  "(ids \<noteq> [] \<and> ks \<noteq> [] \<and> (\<forall>i\<in>set ids. getIntervalById i \<noteq> None) \<and>
    (\<forall>k\<in>set ks. knownKey k) \<and> count \<in> \<int> \<and> 1 \<le> count \<and> count < 4294967296 \<and>
    (\<forall>n. 0 \<le> rnd n \<and> rnd n < 1) \<longrightarrow>
      (\<exists>qs j. generateSession ids ks count rnd i = Inr (qs, j) \<and>
         real (length qs) = count \<and>
         (\<forall>q\<in>set qs. intervalId q \<in> set ids \<and> key q \<in> set ks \<and>
            rootHz q \<le> intervalHz q))) \<and>
   (count \<notin> \<int> \<or> count < 1 \<longrightarrow> generateSession ids ks count rnd i = Inl InvalidCount)"
proof -
  have returns: "\<exists>qs j. generateSession ids ks count rnd i = Inr (qs, j) \<and>
         real (length qs) = count \<and>
         (\<forall>q\<in>set qs. intervalId q \<in> set ids \<and> key q \<in> set ks \<and>
            rootHz q \<le> intervalHz q)"
    if a: "ids \<noteq> [] \<and> ks \<noteq> [] \<and> (\<forall>i\<in>set ids. getIntervalById i \<noteq> None) \<and>
      (\<forall>k\<in>set ks. knownKey k) \<and> count \<in> \<int> \<and> 1 \<le> count \<and> count < 4294967296 \<and>
      (\<forall>n. 0 \<le> rnd n \<and> rnd n < 1)"
  proof -
    from a have q: "\<And>i. \<exists>q j. generateQuestion ids ks rnd i = Inr (q, j) \<and>
        (intervalId q \<in> set ids \<and> key q \<in> set ks \<and> rootHz q \<le> intervalHz q)"
      using generateQuestion_ok [of ids ks rnd] by blast
    from a have c: "isInteger count" "1 \<le> count" "count < 4294967296"
      by (simp_all add: isInteger_iff)
    then have exact: "real (nat \<lfloor>count\<rfloor>) = count"
      by (simp add: isInteger_def)
    with c(3) have "real (nat \<lfloor>count\<rfloor>) < real 4294967296" by simp
    then have small: "nat \<lfloor>count\<rfloor> \<le> 4294967295"
      unfolding of_nat_less_iff by simp
    from arrayFrom_ok [of "generateQuestion ids ks rnd"
        "\<lambda>q. intervalId q \<in> set ids \<and> key q \<in> set ks \<and> rootHz q \<le> intervalHz q",
        OF q small]
    obtain qs j where
      qs: "arrayFrom (nat \<lfloor>count\<rfloor>) (generateQuestion ids ks rnd) i = Inr (qs, j)"
          "length qs = nat \<lfloor>count\<rfloor>"
          "\<forall>q\<in>set qs. intervalId q \<in> set ids \<and> key q \<in> set ks \<and> rootHz q \<le> intervalHz q"
      by blast
    with exact c show ?thesis
      by (simp add: generateSession_def)
  qed
  have rejects: "generateSession ids ks count rnd i = Inl InvalidCount"
    if "count \<notin> \<int> \<or> count < 1"
    using that by (auto simp: generateSession_def isInteger_iff)
  from returns rejects show ?thesis by blast
qed

lemma knownKey_C: "knownKey ''C''"
  by (simp add: knownKey_def NOTE_FREQUENCIES_def SEMITONES_FROM_A4_def)

lemma catalog_root: "getIntervalById ''root'' \<noteq> None"
  by (simp add: getIntervalById_def INTERVALS_def)

theorem generateSession_rule_witness:
  "(\<exists>qs j. generateSession [''root''] [''C''] 2 rnd0 0 = Inr (qs, j) \<and> length qs = 2) \<and>
   generateSession [''root''] [''C''] (1 / 2) rnd0 0 = Inl InvalidCount"
proof -
  have "\<exists>qs j. generateSession [''root''] [''C''] 2 rnd0 0 = Inr (qs, j) \<and> real (length qs) = 2"
    using generateSession_rule [of "[''root'']" "[''C'']" 2 rnd0 0] knownKey_C catalog_root
    by (simp add: rnd0_def) blast
  moreover have "generateSession [''root''] [''C''] (1 / 2) rnd0 0 = Inl InvalidCount"
    using generateSession_rule [of "[''root'']" "[''C'']" "1 / 2" rnd0 0] by simp
  ultimately show ?thesis by simp
qed

text \<open>
  The claim as stated fails on an id that is not in the catalog: the list of ids is not
  empty, the count is 1, and the call fails with \<open>UnknownInterval\<close>.
\<close>

theorem generateSession_counterexample:
  "generateSession [''bogus''] [''C''] 1 rnd0 0 = Inl (UnknownInterval (Some ''bogus''))"
  by (simp add: generateSession_def arrayFrom_def isInteger_def generateQuestion_def
      randomPick_def arrGet_def rnd0_def resolveQuestion_def getIntervalById_def INTERVALS_def)

text \<open>A count of \<open>2^32\<close> is a positive integer, and the array cannot be created.\<close>

lemma generateSession_array_limit:
  "generateSession [''root''] [''C''] 4294967296 rnd0 0 = Inl InvalidArrayLength"
  by (simp add: generateSession_def arrayFrom_def isInteger_def)


section \<open>Properties of the session state machine\<close>

lemma arrGet_member: "arrGet xs j = Some x \<Longrightarrow> x \<in> set xs"
  by (auto simp: arrGet_def split: if_splits)

lemma arrGet_Nil: "arrGet [] j = None"
  by (simp add: arrGet_def)

lemma resolveQuestion_bad_key:
  "kc = None \<or> (\<exists>k. kc = Some k \<and> \<not> knownKey k) \<Longrightarrow> \<exists>e. resolveQuestion kc ic = Inl e"
  by (auto simp: resolveQuestion_def getRootFrequency_unknown split: option.splits)

lemma resolveQuestion_bad_id:
  "ic = None \<or> (\<exists>i. ic = Some i \<and> getIntervalById i = None) \<Longrightarrow>
     \<exists>e. resolveQuestion kc ic = Inl e"
  by (auto simp: resolveQuestion_def)

lemma choice_bad_key:
  "\<forall>k\<in>set ks. \<not> knownKey k \<Longrightarrow>
     arrGet ks j = None \<or> (\<exists>k. arrGet ks j = Some k \<and> \<not> knownKey k)"
  by (cases "arrGet ks j") (auto dest: arrGet_member)

lemma choice_bad_id:
  "\<forall>i\<in>set ids. getIntervalById i = None \<Longrightarrow>
     arrGet ids j = None \<or> (\<exists>i. arrGet ids j = Some i \<and> getIntervalById i = None)"
  by (cases "arrGet ids j") (auto dest: arrGet_member)

lemma generateQuestion_fails:
  assumes "badInput ids ks"
  shows "\<exists>e. generateQuestion ids ks rnd i = Inl e"
proof (cases "ks = [] \<or> ids = []")
  case True
  then show ?thesis
    by (auto simp: generateQuestion_def randomPick_def split: sum.splits)
next
  case False
  with assms consider "\<forall>k\<in>set ks. \<not> knownKey k" | "\<forall>i\<in>set ids. getIntervalById i = None"
    by (auto simp: badInput_def)
  then have "\<exists>e. resolveQuestion (arrGet ks \<lfloor>rnd i * real (length ks)\<rfloor>)
                  (arrGet ids \<lfloor>rnd (i + 1) * real (length ids)\<rfloor>) = Inl e"
  proof cases
    case 1
    then show ?thesis
      by (intro resolveQuestion_bad_key choice_bad_key)
  next
    case 2
    then show ?thesis
      by (intro resolveQuestion_bad_id choice_bad_id)
  qed
  with False show ?thesis
    by (auto simp: generateQuestion_def randomPick_def)
qed

lemma adaptiveQuestion_fails:
  assumes "badInput ids ks" "set pool \<subseteq> set ids"
  shows "\<exists>e. adaptiveQuestion pool ks rnd i = Inl e"
proof (cases "pool = []")
  case True
  then show ?thesis by (simp add: adaptiveQuestion_def pickFromWeightedPool_def)
next
  case False
  then have ids: "ids \<noteq> []" using assms(2) by auto
  have "\<exists>e. resolveQuestion (arrGet ks \<lfloor>rnd (i + 1) * real (length ks)\<rfloor>)
                  (arrGet pool \<lfloor>rnd i * real (length pool)\<rfloor>) = Inl e"
  proof (cases "ks = []")
    case True
    then show ?thesis by (intro resolveQuestion_bad_key) (simp add: arrGet_Nil)
  next
    case ks: False
    with assms(1) ids consider "\<forall>k\<in>set ks. \<not> knownKey k"
      | "\<forall>i\<in>set ids. getIntervalById i = None"
      by (auto simp: badInput_def)
    then show ?thesis
    proof cases
      case 1
      then show ?thesis by (intro resolveQuestion_bad_key choice_bad_key)
    next
      case 2
      with assms(2) have "\<forall>i\<in>set pool. getIntervalById i = None" by auto
      then show ?thesis by (intro resolveQuestion_bad_id choice_bad_id)
    qed
  qed
  with False show ?thesis
    by (auto simp: adaptiveQuestion_def pickFromWeightedPool_def Let_def)
qed

lemma arrayFrom_fails:
  "(\<And>i. \<exists>e. f i = Inl e) \<Longrightarrow> 0 < n \<Longrightarrow> \<exists>e. arrayFrom n f i = Inl e"
proof (cases n)
  case 0
  assume "0 < n" with 0 show ?thesis by simp
next
  case (Suc m)
  assume "\<And>i. \<exists>e. f i = Inl e"
  then obtain e where "f i = Inl e" by blast
  with Suc show ?thesis by (simp add: arrayFrom_def)
qed

lemma count_pos: "isInteger c \<Longrightarrow> 1 \<le> c \<Longrightarrow> 0 < nat \<lfloor>c\<rfloor>"
  by (simp add: isInteger_def)

lemma pool_subset: "set (buildWeightedPool ids stats) \<subseteq> set ids"
  using set_concat_replicate [of "\<lambda>ident. getWeight (accuracyOf stats ident)" ids]
  by (simp add: buildWeightedPool_concat)

lemma generateSession_fails:
  "c \<notin> \<int> \<or> c < 1 \<or> badInput ids ks \<Longrightarrow> \<exists>e. generateSession ids ks c rnd i = Inl e"
  using arrayFrom_fails [of "generateQuestion ids ks rnd" "nat \<lfloor>c\<rfloor>" i]
    generateQuestion_fails [of ids ks rnd] count_pos [of c]
  by (auto simp: generateSession_def isInteger_iff)

lemma generateAdaptiveSession_fails:
  "c \<notin> \<int> \<or> c < 1 \<or> badInput ids ks \<Longrightarrow>
     \<exists>e. generateAdaptiveSession ids ks c stats rnd i = Inl e"
  using arrayFrom_fails [of "adaptiveQuestion (buildWeightedPool ids stats) ks rnd" "nat \<lfloor>c\<rfloor>" i]
    adaptiveQuestion_fails [of ids ks "buildWeightedPool ids stats" rnd] count_pos [of c]
    pool_subset [of ids stats]
  by (auto simp: generateAdaptiveSession_def isInteger_iff Let_def)

lemma startSession_error_keeps:
  "fst (startSession cfg rnd h) \<noteq> None \<Longrightarrow> snd (startSession cfg rnd h) = h"
  by (auto simp: startSession_def Let_def split: sum.splits if_splits)

lemma resolveQuestion_iff: "(\<exists>q. resolveQuestion kc ic = Inr q) = drawOk kc ic"
proof (cases "drawOk kc ic")
  case True
  then obtain k ident where "kc = Some k" "ic = Some ident" "knownKey k"
    "getIntervalById ident \<noteq> None"
    by (auto simp: drawOk_def split: option.splits)
  with resolveQuestion_ok [of ident k] True show ?thesis by auto
next
  case False
  then have "(kc = None \<or> (\<exists>k. kc = Some k \<and> \<not> knownKey k)) \<or>
      (ic = None \<or> (\<exists>i. ic = Some i \<and> getIntervalById i = None))"
    by (auto simp: drawOk_def split: option.splits)
  then have "\<exists>e. resolveQuestion kc ic = Inl e"
    using resolveQuestion_bad_key [of kc ic] resolveQuestion_bad_id [of ic kc] by blast
  with False show ?thesis by auto
qed

lemma drawn_Nil: "drawn [] r = None"
  by (simp add: drawn_def arrGet_def)

lemma drawOk_no_key: "\<not> drawOk None ic"
  by (simp add: drawOk_def)

lemma drawOk_no_id: "\<not> drawOk kc None"
  by (simp add: drawOk_def)

lemma generateQuestion_iff:
  "(\<exists>q. generateQuestion ids ks rnd i = Inr (q, i + 2)) =
     drawOk (drawn ks (rnd i)) (drawn ids (rnd (i + 1)))"
proof (cases "ks = [] \<or> ids = []")
  case True
  then have "\<exists>e. generateQuestion ids ks rnd i = Inl e"
    by (auto simp: generateQuestion_def randomPick_def split: sum.splits)
  moreover from True have "\<not> drawOk (drawn ks (rnd i)) (drawn ids (rnd (i + 1)))"
    using drawn_Nil drawOk_no_key drawOk_no_id by auto
  ultimately show ?thesis by auto
next
  case False
  then show ?thesis
    using resolveQuestion_iff [of "drawn ks (rnd i)" "drawn ids (rnd (i + 1))"]
    by (auto simp: generateQuestion_def randomPick_def drawn_def split: sum.splits)
qed

lemma generateQuestion_shape:
  "(\<exists>q. generateQuestion ids ks rnd i = Inr (q, i + 2)) \<or>
   (\<exists>e. generateQuestion ids ks rnd i = Inl e)"
  by (auto simp: generateQuestion_def split: sum.splits)

lemma adaptiveQuestion_iff:
  "(\<exists>q. adaptiveQuestion pool ks rnd i = Inr (q, i + 2)) =
     drawOk (drawn ks (rnd (i + 1))) (drawn pool (rnd i))"
proof (cases "pool = []")
  case True
  then have "\<exists>e. adaptiveQuestion pool ks rnd i = Inl e"
    by (simp add: adaptiveQuestion_def pickFromWeightedPool_def)
  moreover from True have "\<not> drawOk (drawn ks (rnd (i + 1))) (drawn pool (rnd i))"
    using drawn_Nil drawOk_no_id by auto
  ultimately show ?thesis by auto
next
  case False
  then show ?thesis
    using resolveQuestion_iff [of "drawn ks (rnd (i + 1))" "drawn pool (rnd i)"]
    by (auto simp: adaptiveQuestion_def pickFromWeightedPool_def drawn_def Let_def
        split: sum.splits)
qed

lemma adaptiveQuestion_shape:
  "(\<exists>q. adaptiveQuestion pool ks rnd i = Inr (q, i + 2)) \<or>
   (\<exists>e. adaptiveQuestion pool ks rnd i = Inl e)"
  by (auto simp: adaptiveQuestion_def Let_def split: sum.splits)

lemma arrayFill_iff:
  assumes shape: "\<And>i. (\<exists>x. f i = Inr (x, i + 2)) \<or> (\<exists>e. f i = Inl e)"
  shows "(\<exists>xs k. arrayFill n f i = Inr (xs, k)) = (\<forall>j<n. \<exists>x. f (i + 2 * j) = Inr (x, i + 2 * j + 2))"
proof (induction n arbitrary: i)
  case 0
  show ?case by simp
next
  case (Suc n)
  show ?case
  proof (cases "\<exists>x. f i = Inr (x, i + 2)")
    case True
    then obtain x where x: "f i = Inr (x, i + 2)" by blast
    have "(\<exists>xs k. arrayFill (Suc n) f i = Inr (xs, k)) =
          (\<exists>xs k. arrayFill n f (i + 2) = Inr (xs, k))"
      using x by (auto split: sum.splits)
    also have "\<dots> = (\<forall>j<n. \<exists>x. f (i + 2 + 2 * j) = Inr (x, i + 2 + 2 * j + 2))"
      by (rule Suc)
    also have "\<dots> = (\<forall>j<Suc n. \<exists>x. f (i + 2 * j) = Inr (x, i + 2 * j + 2))"
    proof
      assume a: "\<forall>j<n. \<exists>x. f (i + 2 + 2 * j) = Inr (x, i + 2 + 2 * j + 2)"
      show "\<forall>j<Suc n. \<exists>x. f (i + 2 * j) = Inr (x, i + 2 * j + 2)"
      proof (intro allI impI)
        fix j assume j: "j < Suc n"
        show "\<exists>x. f (i + 2 * j) = Inr (x, i + 2 * j + 2)"
        proof (cases j)
          case 0
          with True show ?thesis by simp
        next
          case (Suc m)
          with j have "m < n" by simp
          with a have "\<exists>x. f (i + 2 + 2 * m) = Inr (x, i + 2 + 2 * m + 2)" by blast
          with Suc show ?thesis by simp
        qed
      qed
    next
      assume a: "\<forall>j<Suc n. \<exists>x. f (i + 2 * j) = Inr (x, i + 2 * j + 2)"
      show "\<forall>j<n. \<exists>x. f (i + 2 + 2 * j) = Inr (x, i + 2 + 2 * j + 2)"
      proof (intro allI impI)
        fix j assume "j < n"
        then have "Suc j < Suc n" by simp
        with a have "\<exists>x. f (i + 2 * Suc j) = Inr (x, i + 2 * Suc j + 2)" by blast
        then show "\<exists>x. f (i + 2 + 2 * j) = Inr (x, i + 2 + 2 * j + 2)"
          by simp
      qed
    qed
    finally show ?thesis .
  next
    case False
    with shape [of i] obtain e where "f i = Inl e" by blast
    then have "\<not> (\<exists>xs k. arrayFill (Suc n) f i = Inr (xs, k))" by simp
    moreover from False have "\<not> (\<forall>j<Suc n. \<exists>x. f (i + 2 * j) = Inr (x, i + 2 * j + 2))"
      by (auto intro: exI [of _ 0])
    ultimately show ?thesis by blast
  qed
qed

lemma count_small: "isInteger c \<Longrightarrow> 1 \<le> c \<Longrightarrow> (nat \<lfloor>c\<rfloor> > 4294967295) = (4294967296 \<le> c)"
proof -
  assume c: "isInteger c" "1 \<le> c"
  then have "real (nat \<lfloor>c\<rfloor>) = c" by (simp add: isInteger_def)
  then have "(4294967296 \<le> c) = (real 4294967296 \<le> real (nat \<lfloor>c\<rfloor>))" by simp
  also have "\<dots> = (4294967296 \<le> nat \<lfloor>c\<rfloor>)" unfolding of_nat_le_iff ..
  finally show ?thesis by auto
qed

lemma startSession_succeeds_iff:
  "(fst (startSession cfg rnd h) = None) =
     (sessionLength cfg \<in> \<int> \<and> 1 \<le> sessionLength cfg \<and> sessionLength cfg < 4294967296 \<and>
      (\<forall>j<nat \<lfloor>sessionLength cfg\<rfloor>. drawsValid cfg rnd j))"
proof (cases "isInteger (sessionLength cfg) \<and> 1 \<le> sessionLength cfg \<and> sessionLength cfg < 4294967296")
  case False
  then have "\<not> isInteger (sessionLength cfg) \<or> sessionLength cfg < 1 \<or>
      nat \<lfloor>sessionLength cfg\<rfloor> > 4294967295"
    using count_small [of "sessionLength cfg"] by auto
  then have "fst (startSession cfg rnd h) \<noteq> None"
    by (auto simp: startSession_def generateSession_def generateAdaptiveSession_def
        arrayFrom_def Let_def)
  with False show ?thesis by (auto simp: isInteger_iff)
next
  case True
  then have small: "\<not> nat \<lfloor>sessionLength cfg\<rfloor> > 4294967295"
    using count_small [of "sessionLength cfg"] by auto
  let ?n = "nat \<lfloor>sessionLength cfg\<rfloor>"
  show ?thesis
  proof (cases "case intervalStats cfg of None \<Rightarrow> False | Some ss \<Rightarrow> ss \<noteq> []")
    case stats: True
    let ?f = "adaptiveQuestion (buildWeightedPool (intervalIds cfg) (intervalStats cfg)) (keys cfg) rnd"
    have "(fst (startSession cfg rnd h) = None) = (\<exists>xs k. arrayFill ?n ?f 0 = Inr (xs, k))"
      using True small stats
      by (auto simp: startSession_def generateAdaptiveSession_def arrayFrom_def Let_def
          split: sum.splits option.splits)
    also have "\<dots> = (\<forall>j<?n. \<exists>x. ?f (0 + 2 * j) = Inr (x, 0 + 2 * j + 2))"
      by (rule arrayFill_iff) (rule adaptiveQuestion_shape)
    also have "\<dots> = (\<forall>j<?n. drawsValid cfg rnd j)"
    proof -
      have "(\<exists>x. ?f (0 + 2 * j) = Inr (x, 0 + 2 * j + 2)) = drawsValid cfg rnd j" for j
        using stats
          adaptiveQuestion_iff [of "buildWeightedPool (intervalIds cfg) (intervalStats cfg)"
            "keys cfg" rnd "0 + 2 * j"]
        by (simp add: drawsValid_def)
      then show ?thesis by simp
    qed
    finally show ?thesis using True by (simp add: isInteger_iff)
  next
    case stats: False
    let ?f = "generateQuestion (intervalIds cfg) (keys cfg) rnd"
    have "(fst (startSession cfg rnd h) = None) = (\<exists>xs k. arrayFill ?n ?f 0 = Inr (xs, k))"
      using True small stats
      by (auto simp: startSession_def generateSession_def arrayFrom_def Let_def
          split: sum.splits option.splits)
    also have "\<dots> = (\<forall>j<?n. \<exists>x. ?f (0 + 2 * j) = Inr (x, 0 + 2 * j + 2))"
      by (rule arrayFill_iff) (rule generateQuestion_shape)
    also have "\<dots> = (\<forall>j<?n. drawsValid cfg rnd j)"
    proof -
      have "(\<exists>x. ?f (0 + 2 * j) = Inr (x, 0 + 2 * j + 2)) = drawsValid cfg rnd j" for j
        using stats generateQuestion_iff [of "intervalIds cfg" "keys cfg" rnd "0 + 2 * j"]
        by (simp add: drawsValid_def)
      then show ?thesis by simp
    qed
    finally show ?thesis using True by (simp add: isInteger_iff)
  qed
qed

text \<open>
  C8 (amended). Whenever \<open>startSession\<close> fails, the hook is exactly as before the call. It
  fails for every session length that is not a positive integer, for an empty list of
  interval ids, for an empty list of keys, and when no key is known or no id is in the
  catalog. An unknown key or id among valid ones makes the call fail exactly when it is
  drawn: the call succeeds if and only if the session length is a positive integer
  below \<open>2^32\<close> and, for each question, the key drawn is known and the id drawn is in
  the catalog.
\<close>

theorem startSession_failure:
  "(fst (startSession cfg rnd h) \<noteq> None \<longrightarrow> snd (startSession cfg rnd h) = h) \<and>
   (sessionLength cfg \<notin> \<int> \<or> sessionLength cfg < 1 \<or> intervalIds cfg = [] \<or> keys cfg = [] \<or>
    (\<forall>k\<in>set (keys cfg). \<not> knownKey k) \<or>
    (\<forall>i\<in>set (intervalIds cfg). getIntervalById i = None) \<longrightarrow>
      fst (startSession cfg rnd h) \<noteq> None \<and> snd (startSession cfg rnd h) = h) \<and>
   (fst (startSession cfg rnd h) = None) =
     (sessionLength cfg \<in> \<int> \<and> 1 \<le> sessionLength cfg \<and> sessionLength cfg < 4294967296 \<and>
      (\<forall>j<nat \<lfloor>sessionLength cfg\<rfloor>. drawsValid cfg rnd j))"
proof -
  have keeps: "fst (startSession cfg rnd h) \<noteq> None \<longrightarrow> snd (startSession cfg rnd h) = h"
    using startSession_error_keeps by blast
  have fails: "fst (startSession cfg rnd h) \<noteq> None"
    if "sessionLength cfg \<notin> \<int> \<or> sessionLength cfg < 1 \<or> intervalIds cfg = [] \<or>
      keys cfg = [] \<or> (\<forall>k\<in>set (keys cfg). \<not> knownKey k) \<or>
      (\<forall>i\<in>set (intervalIds cfg). getIntervalById i = None)"
  proof -
    from that have bad: "sessionLength cfg \<notin> \<int> \<or> sessionLength cfg < 1 \<or>
        badInput (intervalIds cfg) (keys cfg)"
      unfolding badInput_def by blast
    from generateSession_fails [OF bad] obtain e1 where
      e1: "generateSession (intervalIds cfg) (keys cfg) (sessionLength cfg) rnd 0 = Inl e1"
      by blast
    from generateAdaptiveSession_fails [OF bad] obtain e2 where
      e2: "generateAdaptiveSession (intervalIds cfg) (keys cfg) (sessionLength cfg)
             (intervalStats cfg) rnd 0 = Inl e2"
      by blast
    show ?thesis
      using e1 e2 by (simp add: startSession_def Let_def)
  qed
  from keeps fails startSession_succeeds_iff [of cfg rnd h] show ?thesis by blast
qed

lemma drawsValid_cfgMixed_rnd0: "drawsValid cfgMixed rnd0 0"
  by (simp add: drawsValid_def cfgMixed_def drawn_def drawOk_def arrGet_def rnd0_def
      knownKey_C catalog_root)

lemma drawsValid_cfgMixed_rndHalf: "\<not> drawsValid cfgMixed rndHalf 0"
  by (simp add: drawsValid_def cfgMixed_def drawn_def drawOk_def arrGet_def rndHalf_def
      getIntervalById_def INTERVALS_def)

theorem startSession_failure_witness:
  "fst (startSession cfgNoKeys rnd0 INITIAL_HOOK) \<noteq> None \<and>
   snd (startSession cfgNoKeys rnd0 INITIAL_HOOK) = INITIAL_HOOK \<and>
   fst (startSession cfgMixed rnd0 INITIAL_HOOK) = None \<and>
   fst (startSession cfgMixed rndHalf INITIAL_HOOK) \<noteq> None \<and>
   snd (startSession cfgMixed rndHalf INITIAL_HOOK) = INITIAL_HOOK"
proof -
  have noKeys: "keys cfgNoKeys = []"
    by (simp add: cfgNoKeys_def)
  have drawnValid: "sessionLength cfgMixed \<in> \<int> \<and> 1 \<le> sessionLength cfgMixed \<and>
      sessionLength cfgMixed < 4294967296 \<and>
      (\<forall>j<nat \<lfloor>sessionLength cfgMixed\<rfloor>. drawsValid cfgMixed rnd0 j)"
    by (simp add: cfgMixed_def [THEN arg_cong, of sessionLength] drawsValid_cfgMixed_rnd0)
  have drawnInvalid: "\<not> (\<forall>j<nat \<lfloor>sessionLength cfgMixed\<rfloor>. drawsValid cfgMixed rndHalf j)"
    using drawsValid_cfgMixed_rndHalf
    by (simp add: cfgMixed_def [THEN arg_cong, of sessionLength])
  from startSession_failure [of cfgNoKeys rnd0 INITIAL_HOOK] noKeys
  have "fst (startSession cfgNoKeys rnd0 INITIAL_HOOK) \<noteq> None \<and>
      snd (startSession cfgNoKeys rnd0 INITIAL_HOOK) = INITIAL_HOOK"
    by blast
  moreover from startSession_failure [of cfgMixed rnd0 INITIAL_HOOK] drawnValid
  have "fst (startSession cfgMixed rnd0 INITIAL_HOOK) = None"
    by blast
  moreover from startSession_failure [of cfgMixed rndHalf INITIAL_HOOK] drawnInvalid
  have "fst (startSession cfgMixed rndHalf INITIAL_HOOK) \<noteq> None \<and>
      snd (startSession cfgMixed rndHalf INITIAL_HOOK) = INITIAL_HOOK"
    by blast
  ultimately show ?thesis by blast
qed

text \<open>
  The claim as stated fails on a list of ids that holds an id outside the catalog next
  to a valid one: with the valid id drawn, the call succeeds and the state changes.
\<close>

theorem startSession_counterexample:
  "getIntervalById ''bogus'' = None \<and>
   fst (startSession cfgMixed rnd0 INITIAL_HOOK) = None \<and>
   phase (state (snd (startSession cfgMixed rnd0 INITIAL_HOOK))) = Answering \<and>
   phase (state INITIAL_HOOK) = Idle"
  by (simp add: cfgMixed_def startSession_def generateSession_def arrayFrom_def isInteger_def
      generateQuestion_def randomPick_def arrGet_def rnd0_def resolveQuestion_def
      getIntervalById_def INTERVALS_def getRootFrequency_def NOTE_FREQUENCIES_def
      SEMITONES_FROM_A4_def getIntervalFrequency_def INITIAL_HOOK_def INITIAL_STATE_def
      play_def run_def advanceToNext_def computeAdvance_def completionPayload_def
      submitAnswer_def Let_def)

lemma startSession_cfgOne: "fst (startSession cfgOne rnd0 INITIAL_HOOK) = None"
  by (simp add: cfgOne_def startSession_def generateSession_def arrayFrom_def isInteger_def
      generateQuestion_def randomPick_def arrGet_def rnd0_def resolveQuestion_def
      getIntervalById_def INTERVALS_def getRootFrequency_def NOTE_FREQUENCIES_def
      SEMITONES_FROM_A4_def getIntervalFrequency_def INITIAL_HOOK_def INITIAL_STATE_def
      play_def run_def advanceToNext_def computeAdvance_def completionPayload_def
      submitAnswer_def Let_def)

lemma run_cfgOne_complete:
  "phase (state (run (snd (startSession cfgOne rnd0 INITIAL_HOOK)) [Submit ''root''])) = Complete"
  by (simp add: cfgOne_def startSession_def generateSession_def arrayFrom_def isInteger_def
      generateQuestion_def randomPick_def arrGet_def rnd0_def resolveQuestion_def
      getIntervalById_def INTERVALS_def getRootFrequency_def NOTE_FREQUENCIES_def
      SEMITONES_FROM_A4_def getIntervalFrequency_def INITIAL_HOOK_def INITIAL_STATE_def
      play_def run_def advanceToNext_def computeAdvance_def completionPayload_def
      submitAnswer_def Let_def)

lemma arrGet_nat: "arrGet xs (int i) = (if i < length xs then Some (xs ! i) else None)"
  by (simp add: arrGet_def)

lemma submitAnswer_no_question:
  "length (questions (state h)) \<le> currentIndex (state h) \<Longrightarrow> submitAnswer a h = h"
  by (simp add: submitAnswer_def arrGet_nat)

lemma computeAdvance_settled: "settled (computeAdvance h rs)"
  by (simp add: settled_def computeAdvance_def Let_def)

lemma step_settled: "settled h \<Longrightarrow> settled (step h ev)"
proof (cases ev)
  case (Submit a)
  assume "settled h"
  then show ?thesis
    using Submit computeAdvance_settled
    by (auto simp: submitAnswer_def Let_def settled_def split: option.splits)
next
  case Advance
  then show ?thesis by (simp add: advanceToNext_def computeAdvance_settled)
qed

lemma run_settled: "settled h \<Longrightarrow> settled (run h evs)"
  unfolding run_def by (induction evs arbitrary: h) (simp_all add: step_settled)

lemma startSession_settled:
  "fst (startSession cfg rnd h0) = None \<Longrightarrow> settled (snd (startSession cfg rnd h0))"
  by (auto simp: startSession_def Let_def settled_def split: sum.splits if_splits)

text \<open>
  C10. With no question at the current index, \<open>submitAnswer\<close> changes nothing: state and
  effects stay as they are, so no result is appended and no audio is triggered. This is
  the case before any session has started, and in every complete state that a started
  session reaches through calls of \<open>submitAnswer\<close> and \<open>advanceToNext\<close>.
\<close>

theorem submitAnswer_without_question:
  "(length (questions (state h)) \<le> currentIndex (state h) \<longrightarrow> submitAnswer a h = h) \<and>
   submitAnswer a INITIAL_HOOK = INITIAL_HOOK \<and>
   (fst (startSession cfg rnd h0) = None \<and>
    phase (state (run (snd (startSession cfg rnd h0)) evs)) = Complete \<longrightarrow>
      submitAnswer a (run (snd (startSession cfg rnd h0)) evs) =
        run (snd (startSession cfg rnd h0)) evs)"
proof -
  have "submitAnswer a INITIAL_HOOK = INITIAL_HOOK"
    by (rule submitAnswer_no_question) (simp add: INITIAL_HOOK_def INITIAL_STATE_def)
  moreover have "submitAnswer a (run (snd (startSession cfg rnd h0)) evs) =
        run (snd (startSession cfg rnd h0)) evs"
    if "fst (startSession cfg rnd h0) = None"
      "phase (state (run (snd (startSession cfg rnd h0)) evs)) = Complete"
  proof -
    have "settled (run (snd (startSession cfg rnd h0)) evs)"
      using that(1) by (intro run_settled startSession_settled)
    with that(2) show ?thesis
      by (intro submitAnswer_no_question) (simp add: settled_def)
  qed
  ultimately show ?thesis
    using submitAnswer_no_question by blast
qed

theorem submitAnswer_without_question_witness:
  "length (questions (state INITIAL_HOOK)) \<le> currentIndex (state INITIAL_HOOK) \<and>
   submitAnswer ''tritone'' INITIAL_HOOK = INITIAL_HOOK \<and>
   submitAnswer ''tritone'' (run (snd (startSession cfgOne rnd0 INITIAL_HOOK)) [Submit ''root'']) =
     run (snd (startSession cfgOne rnd0 INITIAL_HOOK)) [Submit ''root'']"
proof -
  have idle: "length (questions (state INITIAL_HOOK)) \<le> currentIndex (state INITIAL_HOOK)"
    by (simp add: INITIAL_HOOK_def INITIAL_STATE_def)
  from submitAnswer_without_question
    [of INITIAL_HOOK "''tritone''" cfgOne rnd0 INITIAL_HOOK "[Submit ''root'']"]
    idle startSession_cfgOne run_cfgOne_complete
  show ?thesis by blast
qed

lemma computeAdvance_resolvedWith:
  "computeAdvance h (sessionResults (state h) @ [r]) = resolvedWith h r"
proof -
  have "arrGet (questions (state h)) (int (currentIndex (state h) + 1)) =
      (if currentIndex (state h) + 1 < length (questions (state h))
       then Some (questions (state h) ! (currentIndex (state h) + 1)) else None)"
    by (rule arrGet_nat)
  then show ?thesis
    by (auto simp: computeAdvance_def resolvedWith_def Let_def play_def completionPayload_def)
qed

lemma resolvedWith_fields:
  "questions (state (resolvedWith h r)) = questions (state h)"
  "currentIndex (state (resolvedWith h r)) = Suc (currentIndex (state h))"
  "sessionResults (state (resolvedWith h r)) = sessionResults (state h) @ [r]"
  by (simp_all add: resolvedWith_def Let_def)

lemma submitAnswer_cases:
  assumes "currentIndex (state h) < length (questions (state h))"
    and "q = questions (state h) ! currentIndex (state h)"
  shows "(a = intervalId q \<longrightarrow>
            submitAnswer a h =
              resolvedWith h \<lparr>res_intervalId = intervalId q, correct = True,
                               usedRetry = retryUsed (state h)\<rparr>) \<and>
         (a \<noteq> intervalId q \<and> \<not> retryUsed (state h) \<longrightarrow>
            submitAnswer a h =
              \<lparr>state = (state h)\<lparr>selectedAnswer := Some a, isCorrect := Some False,
                                   phase := Feedback, retryUsed := True\<rparr>,
               effects = effects h @ [PlayInterval (rootHz q) (intervalHz q)]\<rparr>) \<and>
         (a \<noteq> intervalId q \<and> retryUsed (state h) \<longrightarrow>
            submitAnswer a h =
              resolvedWith h \<lparr>res_intervalId = intervalId q, correct = False,
                               usedRetry = True\<rparr>)"
  using assms
  by (simp add: submitAnswer_def arrGet_nat Let_def play_def computeAdvance_resolvedWith)

lemma resolvedWith_oneResultEach:
  assumes "oneResultEach h" "currentIndex (state h) < length (questions (state h))"
    and "res_intervalId r = intervalId (questions (state h) ! currentIndex (state h))"
  shows "oneResultEach (resolvedWith h r)"
proof -
  have "map intervalId (take (Suc (currentIndex (state h))) (questions (state h))) =
      map intervalId (take (currentIndex (state h)) (questions (state h))) @
        [intervalId (questions (state h) ! currentIndex (state h))]"
    using assms(2) by (simp add: take_Suc_conv_app_nth)
  with assms show ?thesis
    unfolding oneResultEach_def resolvedWith_fields by simp
qed

lemma submitAnswer_oneResultEach:
  assumes "oneResultEach h"
  shows "oneResultEach (submitAnswer a h)"
proof (cases "currentIndex (state h) < length (questions (state h))")
  case False
  then have "submitAnswer a h = h"
    by (intro submitAnswer_no_question) simp
  with assms show ?thesis by simp
next
  case True
  let ?q = "questions (state h) ! currentIndex (state h)"
  note cases = submitAnswer_cases [OF True refl, of a]
  consider "a = intervalId ?q" | "a \<noteq> intervalId ?q" "\<not> retryUsed (state h)"
    | "a \<noteq> intervalId ?q" "retryUsed (state h)" by blast
  then show ?thesis
  proof cases
    case 1
    with cases show ?thesis
      using resolvedWith_oneResultEach [OF assms True] by simp
  next
    case 2
    with cases have "submitAnswer a h =
        \<lparr>state = (state h)\<lparr>selectedAnswer := Some a, isCorrect := Some False,
                             phase := Feedback, retryUsed := True\<rparr>,
         effects = effects h @ [PlayInterval (rootHz ?q) (intervalHz ?q)]\<rparr>" by blast
    with assms show ?thesis by (simp add: oneResultEach_def)
  next
    case 3
    with cases show ?thesis
      using resolvedWith_oneResultEach [OF assms True] by simp
  qed
qed

lemma run_submits_oneResultEach:
  "oneResultEach h \<Longrightarrow> oneResultEach (run h (map Submit answers))"
  unfolding run_def
  by (induction answers arbitrary: h) (simp_all add: submitAnswer_oneResultEach)

lemma startSession_oneResultEach:
  "fst (startSession cfg rnd h0) = None \<Longrightarrow> oneResultEach (snd (startSession cfg rnd h0))"
  by (auto simp: startSession_def Let_def oneResultEach_def INITIAL_STATE_def
      split: sum.splits if_splits)

text \<open>
  C2. With a question at the current index, a right answer appends exactly one result,
  \<open>{correct: true, usedRetry: retryUsed}\<close>, and advances. A wrong answer on a question
  that has not used its retry records the answered id, sets \<open>isCorrect\<close> to false and
  \<open>retryUsed\<close> to true, moves to \<open>feedback\<close>, replays the question and appends no
  result; the next answer on that question appends exactly one result,
  \<open>{correct: true, usedRetry: true}\<close> when it is right and
  \<open>{correct: false, usedRetry: true}\<close> when it is wrong, and advances. To advance is to
  move the index on by one, reset the fields of the question and trigger the audio of
  the next question, or to enter \<open>complete\<close> and emit the payload after the last one.
  So in a started session driven by \<open>submitAnswer\<close>, the results are those of the
  questions passed, one for each, in order.
\<close>

theorem retry_law:
  "(currentIndex (state h) < length (questions (state h)) \<and>
    q = questions (state h) ! currentIndex (state h) \<longrightarrow>
      (a = intervalId q \<longrightarrow>
         submitAnswer a h =
           resolvedWith h \<lparr>res_intervalId = intervalId q, correct = True,
                            usedRetry = retryUsed (state h)\<rparr>) \<and>
      (a \<noteq> intervalId q \<and> retryUsed (state h) \<longrightarrow>
         submitAnswer a h =
           resolvedWith h \<lparr>res_intervalId = intervalId q, correct = False,
                            usedRetry = True\<rparr>) \<and>
      (a \<noteq> intervalId q \<and> \<not> retryUsed (state h) \<longrightarrow>
         submitAnswer a h =
           \<lparr>state = (state h)\<lparr>selectedAnswer := Some a, isCorrect := Some False,
                                phase := Feedback, retryUsed := True\<rparr>,
            effects = effects h @ [PlayInterval (rootHz q) (intervalHz q)]\<rparr> \<and>
         sessionResults (state (submitAnswer a h)) = sessionResults (state h) \<and>
         submitAnswer (intervalId q) (submitAnswer a h) =
           resolvedWith (submitAnswer a h)
             \<lparr>res_intervalId = intervalId q, correct = True, usedRetry = True\<rparr> \<and>
         sessionResults (state (submitAnswer (intervalId q) (submitAnswer a h))) =
           sessionResults (state h) @
             [\<lparr>res_intervalId = intervalId q, correct = True, usedRetry = True\<rparr>] \<and>
         (b \<noteq> intervalId q \<longrightarrow>
            submitAnswer b (submitAnswer a h) =
              resolvedWith (submitAnswer a h)
                \<lparr>res_intervalId = intervalId q, correct = False, usedRetry = True\<rparr> \<and>
            sessionResults (state (submitAnswer b (submitAnswer a h))) =
              sessionResults (state h) @
                [\<lparr>res_intervalId = intervalId q, correct = False, usedRetry = True\<rparr>]))) \<and>
   (fst (startSession cfg rnd h0) = None \<longrightarrow>
      currentIndex (state (run (snd (startSession cfg rnd h0)) (map Submit answers)))
        \<le> length (questions (state (run (snd (startSession cfg rnd h0)) (map Submit answers)))) \<and>
      map res_intervalId
          (sessionResults (state (run (snd (startSession cfg rnd h0)) (map Submit answers)))) =
        map intervalId
          (take (currentIndex (state (run (snd (startSession cfg rnd h0)) (map Submit answers))))
             (questions (state (run (snd (startSession cfg rnd h0)) (map Submit answers))))))"
proof -
  have single: "(a = intervalId q \<longrightarrow>
         submitAnswer a h =
           resolvedWith h \<lparr>res_intervalId = intervalId q, correct = True,
                            usedRetry = retryUsed (state h)\<rparr>) \<and>
      (a \<noteq> intervalId q \<and> retryUsed (state h) \<longrightarrow>
         submitAnswer a h =
           resolvedWith h \<lparr>res_intervalId = intervalId q, correct = False,
                            usedRetry = True\<rparr>)"
    if "currentIndex (state h) < length (questions (state h))"
      "q = questions (state h) ! currentIndex (state h)"
    using submitAnswer_cases [OF that, of a] by blast
  have retry: "submitAnswer a h =
           \<lparr>state = (state h)\<lparr>selectedAnswer := Some a, isCorrect := Some False,
                                phase := Feedback, retryUsed := True\<rparr>,
            effects = effects h @ [PlayInterval (rootHz q) (intervalHz q)]\<rparr> \<and>
         sessionResults (state (submitAnswer a h)) = sessionResults (state h) \<and>
         submitAnswer (intervalId q) (submitAnswer a h) =
           resolvedWith (submitAnswer a h)
             \<lparr>res_intervalId = intervalId q, correct = True, usedRetry = True\<rparr> \<and>
         sessionResults (state (submitAnswer (intervalId q) (submitAnswer a h))) =
           sessionResults (state h) @
             [\<lparr>res_intervalId = intervalId q, correct = True, usedRetry = True\<rparr>] \<and>
         (b \<noteq> intervalId q \<longrightarrow>
            submitAnswer b (submitAnswer a h) =
              resolvedWith (submitAnswer a h)
                \<lparr>res_intervalId = intervalId q, correct = False, usedRetry = True\<rparr> \<and>
            sessionResults (state (submitAnswer b (submitAnswer a h))) =
              sessionResults (state h) @
                [\<lparr>res_intervalId = intervalId q, correct = False, usedRetry = True\<rparr>])"
    if cur: "currentIndex (state h) < length (questions (state h))"
      "q = questions (state h) ! currentIndex (state h)"
      and wrong: "a \<noteq> intervalId q" "\<not> retryUsed (state h)"
  proof -
    let ?h1 = "submitAnswer a h"
    have first: "?h1 =
        \<lparr>state = (state h)\<lparr>selectedAnswer := Some a, isCorrect := Some False,
                             phase := Feedback, retryUsed := True\<rparr>,
         effects = effects h @ [PlayInterval (rootHz q) (intervalHz q)]\<rparr>"
      using submitAnswer_cases [OF cur, of a] wrong by blast
    have cur1: "currentIndex (state ?h1) < length (questions (state ?h1))"
      "q = questions (state ?h1) ! currentIndex (state ?h1)"
      and used: "retryUsed (state ?h1)"
      and same: "sessionResults (state ?h1) = sessionResults (state h)"
      using cur by (simp_all add: first)
    have right: "submitAnswer (intervalId q) ?h1 =
        resolvedWith ?h1 \<lparr>res_intervalId = intervalId q, correct = True, usedRetry = True\<rparr>"
      using submitAnswer_cases [OF cur1, of "intervalId q"] used by simp
    have again: "submitAnswer b ?h1 =
        resolvedWith ?h1 \<lparr>res_intervalId = intervalId q, correct = False, usedRetry = True\<rparr>"
      if "b \<noteq> intervalId q"
      using submitAnswer_cases [OF cur1, of b] used that by simp
    have appended: "sessionResults (state (resolvedWith ?h1 r)) = sessionResults (state h) @ [r]"
      for r
      using same by (simp add: resolvedWith_fields)
    show ?thesis
      using first same right again appended by simp
  qed
  have each: "currentIndex (state (run (snd (startSession cfg rnd h0)) (map Submit answers)))
        \<le> length (questions (state (run (snd (startSession cfg rnd h0)) (map Submit answers)))) \<and>
      map res_intervalId
          (sessionResults (state (run (snd (startSession cfg rnd h0)) (map Submit answers)))) =
        map intervalId
          (take (currentIndex (state (run (snd (startSession cfg rnd h0)) (map Submit answers))))
             (questions (state (run (snd (startSession cfg rnd h0)) (map Submit answers)))))"
    if "fst (startSession cfg rnd h0) = None"
    using run_submits_oneResultEach [OF startSession_oneResultEach [OF that], of answers]
    by (simp add: oneResultEach_def)
  from single retry each show ?thesis by blast
qed

theorem retry_law_witness:
  "submitAnswer ''root'' hookA =
     resolvedWith hookA \<lparr>res_intervalId = ''root'', correct = True, usedRetry = False\<rparr> \<and>
   sessionResults (state (submitAnswer ''tritone'' hookA)) = [] \<and>
   sessionResults (state (submitAnswer ''root'' (submitAnswer ''tritone'' hookA))) =
     [\<lparr>res_intervalId = ''root'', correct = True, usedRetry = True\<rparr>] \<and>
   sessionResults (state (submitAnswer ''tritone'' (submitAnswer ''tritone'' hookA))) =
     [\<lparr>res_intervalId = ''root'', correct = False, usedRetry = True\<rparr>] \<and>
   submitAnswer ''tritone'' (submitAnswer ''tritone'' hookA) =
     resolvedWith (submitAnswer ''tritone'' hookA)
       \<lparr>res_intervalId = ''root'', correct = False, usedRetry = True\<rparr> \<and>
   map res_intervalId (sessionResults (state
       (run (snd (startSession cfgOne rnd0 INITIAL_HOOK)) (map Submit [''tritone'', ''root''])))) =
     map intervalId
       (take (currentIndex (state
          (run (snd (startSession cfgOne rnd0 INITIAL_HOOK)) (map Submit [''tritone'', ''root'']))))
        (questions (state
          (run (snd (startSession cfgOne rnd0 INITIAL_HOOK)) (map Submit [''tritone'', ''root''])))))"
proof -
  have cur: "currentIndex (state hookA) < length (questions (state hookA)) \<and>
      questionA = questions (state hookA) ! currentIndex (state hookA)"
    by (simp add: hookA_def INITIAL_STATE_def)
  have root: "intervalId questionA = ''root''"
    by (simp add: questionA_def)
  have fresh: "\<not> retryUsed (state hookA)" "sessionResults (state hookA) = []"
    by (simp_all add: hookA_def INITIAL_STATE_def)
  note right = retry_law [of hookA questionA "''root''" "''tritone''" cfgOne rnd0 INITIAL_HOOK
      "[''tritone'', ''root'']"]
  note wrong = retry_law [of hookA questionA "''tritone''" "''tritone''" cfgOne rnd0 INITIAL_HOOK
      "[''tritone'', ''root'']"]
  have differs: "''tritone'' \<noteq> intervalId questionA"
    by (simp add: questionA_def)
  from right cur root have
    "submitAnswer ''root'' hookA =
       resolvedWith hookA \<lparr>res_intervalId = intervalId questionA, correct = True,
                            usedRetry = retryUsed (state hookA)\<rparr>"
    by metis
  then have first:
    "submitAnswer ''root'' hookA =
       resolvedWith hookA \<lparr>res_intervalId = ''root'', correct = True, usedRetry = False\<rparr>"
    using root fresh(1) by simp
  from wrong cur differs fresh(1) have
    "sessionResults (state (submitAnswer ''tritone'' hookA)) = sessionResults (state hookA) \<and>
     sessionResults (state (submitAnswer (intervalId questionA) (submitAnswer ''tritone'' hookA))) =
       sessionResults (state hookA) @
         [\<lparr>res_intervalId = intervalId questionA, correct = True, usedRetry = True\<rparr>] \<and>
     sessionResults (state (submitAnswer ''tritone'' (submitAnswer ''tritone'' hookA))) =
       sessionResults (state hookA) @
         [\<lparr>res_intervalId = intervalId questionA, correct = False, usedRetry = True\<rparr>] \<and>
     submitAnswer ''tritone'' (submitAnswer ''tritone'' hookA) =
       resolvedWith (submitAnswer ''tritone'' hookA)
         \<lparr>res_intervalId = intervalId questionA, correct = False, usedRetry = True\<rparr>"
    by blast
  then have second:
    "sessionResults (state (submitAnswer ''tritone'' hookA)) = []"
    "sessionResults (state (submitAnswer ''root'' (submitAnswer ''tritone'' hookA))) =
       [\<lparr>res_intervalId = ''root'', correct = True, usedRetry = True\<rparr>]"
    "sessionResults (state (submitAnswer ''tritone'' (submitAnswer ''tritone'' hookA))) =
       [\<lparr>res_intervalId = ''root'', correct = False, usedRetry = True\<rparr>]"
    "submitAnswer ''tritone'' (submitAnswer ''tritone'' hookA) =
       resolvedWith (submitAnswer ''tritone'' hookA)
         \<lparr>res_intervalId = ''root'', correct = False, usedRetry = True\<rparr>"
    unfolding root fresh(2) append_Nil by blast+
  from right startSession_cfgOne have third:
    "map res_intervalId (sessionResults (state
       (run (snd (startSession cfgOne rnd0 INITIAL_HOOK)) (map Submit [''tritone'', ''root''])))) =
     map intervalId
       (take (currentIndex (state
          (run (snd (startSession cfgOne rnd0 INITIAL_HOOK)) (map Submit [''tritone'', ''root'']))))
        (questions (state
          (run (snd (startSession cfgOne rnd0 INITIAL_HOOK)) (map Submit [''tritone'', ''root''])))))"
    by blast
  from first second third show ?thesis by blast
qed

lemma completions_append: "completions (xs @ ys) = completions xs @ completions ys"
  by (induction xs rule: completions.induct) simp_all

lemma completions_play: "completions (play q effs) = completions effs"
  by (simp add: play_def completions_append split: option.splits)

lemma computeAdvance_paced:
  assumes "paced qs before k h" "currentIndex (state h) < length qs"
    "length rs + k' = currentIndex (state h) + 1"
  shows "paced qs before k' (computeAdvance h rs)"
  using assms
  by (auto simp: paced_def computeAdvance_def Let_def completions_append completions_play)

lemma submitAnswer_paced:
  assumes "paced qs before k h"
  shows "paced qs before k (submitAnswer a h)"
proof (cases "currentIndex (state h) < length qs")
  case False
  with assms have "submitAnswer a h = h"
    by (intro submitAnswer_no_question) (simp add: paced_def)
  with assms show ?thesis by simp
next
  case True
  have q: "questions (state h) = qs" using assms by (simp add: paced_def)
  have len: "length (sessionResults (state h)) + k = currentIndex (state h)"
    using assms by (simp add: paced_def)
  let ?q = "qs ! currentIndex (state h)"
  consider "a = intervalId ?q" | "a \<noteq> intervalId ?q" "\<not> retryUsed (state h)"
    | "a \<noteq> intervalId ?q" "retryUsed (state h)" by blast
  then show ?thesis
  proof cases
    case 1
    then have "submitAnswer a h = computeAdvance h (sessionResults (state h) @
        [\<lparr>res_intervalId = intervalId ?q, correct = True, usedRetry = retryUsed (state h)\<rparr>])"
      using True q by (simp add: submitAnswer_def arrGet_nat Let_def)
    then show ?thesis
      using computeAdvance_paced [OF assms True, of _ k] len by simp
  next
    case 2
    then have "submitAnswer a h =
        \<lparr>state = (state h)\<lparr>selectedAnswer := Some a, isCorrect := Some False,
                             phase := Feedback, retryUsed := True\<rparr>,
         effects = play (Some ?q) (effects h)\<rparr>"
      using True q by (simp add: submitAnswer_def arrGet_nat Let_def)
    then show ?thesis
      using assms True by (auto simp: paced_def completions_play)
  next
    case 3
    then have "submitAnswer a h = computeAdvance h (sessionResults (state h) @
        [\<lparr>res_intervalId = intervalId ?q, correct = False, usedRetry = True\<rparr>])"
      using True q by (simp add: submitAnswer_def arrGet_nat Let_def)
    then show ?thesis
      using computeAdvance_paced [OF assms True, of _ k] len by simp
  qed
qed

lemma advanceToNext_paced:
  assumes "paced qs before k h" "phase (state h) \<noteq> Complete"
  shows "paced qs before (Suc k) (advanceToNext h)"
proof -
  from assms have "currentIndex (state h) < length qs"
    by (auto simp: paced_def)
  moreover from assms(1) have "length (sessionResults (state h)) + Suc k = currentIndex (state h) + 1"
    by (simp add: paced_def)
  ultimately show ?thesis
    unfolding advanceToNext_def by (rule computeAdvance_paced [OF assms(1)])
qed

lemma run_guarded_paced:
  "guarded h evs \<Longrightarrow> paced qs before k h \<Longrightarrow>
     paced qs before (k + count_list evs Advance) (run h evs)"
proof (induction evs arbitrary: h k)
  case Nil
  then show ?case by (simp add: run_def)
next
  case (Cons ev evs)
  have unfold: "run h (ev # evs) = run (step h ev) evs"
    by (simp add: run_def)
  from Cons.prems(1) have rest: "guarded (step h ev) evs"
    and ok: "\<not> (ev = Advance \<and> phase (state h) = Complete)" by simp_all
  show ?case
  proof (cases ev)
    case (Submit a)
    with Cons.prems(2) have "paced qs before k (step h ev)"
      by (simp add: submitAnswer_paced)
    from Cons.IH [OF rest this] Submit show ?thesis
      unfolding unfold by simp
  next
    case Advance
    with ok Cons.prems(2) have "paced qs before (Suc k) (step h ev)"
      by (simp add: advanceToNext_paced)
    from Cons.IH [OF rest this] Advance show ?thesis
      unfolding unfold by simp
  qed
qed

lemma guarded_submits: "guarded h (map Submit answers)"
  by (induction answers arbitrary: h) simp_all

lemma count_submits: "count_list (map Submit answers) Advance = 0"
  by (induction answers) simp_all

lemma run_submits_paced:
  "paced qs before 0 h \<Longrightarrow> paced qs before 0 (run h (map Submit answers))"
  using run_guarded_paced [OF guarded_submits, of qs before 0 h answers]
  by (simp add: count_submits)

lemma submitAnswer_progress:
  assumes "paced qs before k h" "phase (state h) \<noteq> Complete"
  shows "progress h + 1 \<le> progress (submitAnswer a h)"
proof -
  have lt: "currentIndex (state h) < length (questions (state h))"
    using assms by (auto simp: paced_def)
  then show ?thesis
    by (simp add: submitAnswer_def arrGet_nat Let_def computeAdvance_def progress_def)
qed

lemma run_submits_complete:
  "paced qs before k h \<Longrightarrow> phase (state h) = Complete \<Longrightarrow> run h (map Submit answers) = h"
  unfolding run_def
proof (induction answers arbitrary: h)
  case Nil
  show ?case by simp
next
  case (Cons a answers)
  then have "submitAnswer a h = h"
    by (intro submitAnswer_no_question) (simp add: paced_def)
  with Cons show ?case by simp
qed

lemma run_submits_progress:
  "paced qs before k h \<Longrightarrow>
     phase (state (run h (map Submit answers))) = Complete \<or>
     progress h + length answers \<le> progress (run h (map Submit answers))"
proof (induction answers arbitrary: h)
  case Nil
  show ?case by (simp add: run_def)
next
  case (Cons a answers)
  have split: "run h (map Submit (a # answers)) = run (submitAnswer a h) (map Submit answers)"
    by (simp add: run_def)
  show ?case
  proof (cases "phase (state h) = Complete")
    case True
    with Cons.prems show ?thesis
      using run_submits_complete [of qs before k h "a # answers"] by simp
  next
    case False
    from submitAnswer_progress [OF Cons.prems False]
    have p: "progress h + 1 \<le> progress (submitAnswer a h)" .
    from Cons.IH [OF submitAnswer_paced [OF Cons.prems], of a]
    show ?thesis unfolding split using p by auto
  qed
qed

lemma arrayFill_length: "arrayFill n f i = Inr (xs, j) \<Longrightarrow> length xs = n"
  by (induction n arbitrary: i xs j) (auto split: sum.splits prod.splits)

lemma arrayFrom_length: "arrayFrom n f i = Inr (xs, j) \<Longrightarrow> length xs = n"
  by (auto simp: arrayFrom_def arrayFill_length split: if_splits)

lemma count_exact: "isInteger c \<Longrightarrow> 1 \<le> c \<Longrightarrow> real (nat \<lfloor>c\<rfloor>) = c"
  by (simp add: isInteger_def)

lemma startSession_started:
  assumes "fst (startSession cfg rnd h0) = None"
  shows "\<exists>qs. snd (startSession cfg rnd h0) =
            \<lparr>state = INITIAL_STATE\<lparr>questions := qs, phase := Answering\<rparr>,
             effects = play (arrGet qs 0) (effects h0)\<rparr> \<and>
          real (length qs) = sessionLength cfg \<and> qs \<noteq> []"
proof -
  let ?gen = "if (case intervalStats cfg of None \<Rightarrow> False | Some ss \<Rightarrow> length ss > 0)
      then generateAdaptiveSession (intervalIds cfg) (keys cfg) (sessionLength cfg)
             (intervalStats cfg) rnd 0
      else generateSession (intervalIds cfg) (keys cfg) (sessionLength cfg) rnd 0"
  from assms obtain qs j where gen: "?gen = Inr (qs, j)"
    by (cases ?gen) (auto simp: startSession_def Let_def)
  then have c: "isInteger (sessionLength cfg)" "1 \<le> sessionLength cfg"
    by (auto simp: generateSession_def generateAdaptiveSession_def split: if_splits)
  from gen c have "length qs = nat \<lfloor>sessionLength cfg\<rfloor>"
    by (auto simp: generateSession_def generateAdaptiveSession_def Let_def
        dest: arrayFrom_length split: if_splits)
  with count_exact [OF c] have len: "real (length qs) = sessionLength cfg"
    by simp
  with c(2) have "qs \<noteq> []" by auto
  moreover have "snd (startSession cfg rnd h0) =
            \<lparr>state = INITIAL_STATE\<lparr>questions := qs, phase := Answering\<rparr>,
             effects = play (arrGet qs 0) (effects h0)\<rparr>"
    using gen by (simp add: startSession_def Let_def)
  ultimately show ?thesis using len by blast
qed

text \<open>
  C1 (amended). Take a run: a successful start followed by calls of \<open>submitAnswer\<close> and
  \<open>advanceToNext\<close>, none of \<open>advanceToNext\<close> on a hook that is already complete. No
  completion payload is produced while the phase is not \<open>complete\<close>, and exactly one has
  been produced once it is; its \<open>total\<close> equals \<open>results.length\<close>, and together with the
  number of \<open>advanceToNext\<close> calls of the run it makes up the session length. In a run
  of \<open>submitAnswer\<close> calls only, \<open>total\<close> and \<open>results.length\<close> therefore equal the
  session length, and the phase is \<open>complete\<close> after at most twice the session length
  answers.
\<close>

theorem completion_once:
  assumes "fst (startSession cfg rnd h0) = None"
  shows "(guarded (snd (startSession cfg rnd h0)) evs \<longrightarrow>
            (phase (state (run (snd (startSession cfg rnd h0)) evs)) \<noteq> Complete \<longrightarrow>
               completions (effects (run (snd (startSession cfg rnd h0)) evs)) =
                 completions (effects h0)) \<and>
            (phase (state (run (snd (startSession cfg rnd h0)) evs)) = Complete \<longrightarrow>
               (\<exists>p. completions (effects (run (snd (startSession cfg rnd h0)) evs)) =
                       completions (effects h0) @ [p] \<and>
                    total p = length (results p) \<and>
                    real (total p) + real (count_list evs Advance) = sessionLength cfg))) \<and>
         (phase (state (run (snd (startSession cfg rnd h0)) (map Submit answers))) = Complete \<longrightarrow>
            (\<exists>p. completions (effects (run (snd (startSession cfg rnd h0)) (map Submit answers))) =
                    completions (effects h0) @ [p] \<and>
                 real (total p) = sessionLength cfg \<and>
                 real (length (results p)) = sessionLength cfg)) \<and>
         (2 * sessionLength cfg \<le> real (length answers) \<longrightarrow>
            phase (state (run (snd (startSession cfg rnd h0)) (map Submit answers))) = Complete)"
proof -
  from startSession_started [OF assms] obtain qs where
    h1: "snd (startSession cfg rnd h0) =
            \<lparr>state = INITIAL_STATE\<lparr>questions := qs, phase := Answering\<rparr>,
             effects = play (arrGet qs 0) (effects h0)\<rparr>"
    and len: "real (length qs) = sessionLength cfg" and ne: "qs \<noteq> []" by blast
  let ?h1 = "snd (startSession cfg rnd h0)"
  let ?h = "run ?h1 (map Submit answers)"
  let ?g = "run ?h1 evs"
  have start: "paced qs (completions (effects h0)) 0 ?h1"
    using ne by (simp add: h1 paced_def INITIAL_STATE_def completions_play)
  have a: "(phase (state ?g) \<noteq> Complete \<longrightarrow>
               completions (effects ?g) = completions (effects h0)) \<and>
            (phase (state ?g) = Complete \<longrightarrow>
               (\<exists>p. completions (effects ?g) = completions (effects h0) @ [p] \<and>
                    total p = length (results p) \<and>
                    real (total p) + real (count_list evs Advance) = sessionLength cfg))"
    if g: "guarded ?h1 evs"
  proof -
    from run_guarded_paced [OF g start]
    have pg: "paced qs (completions (effects h0)) (count_list evs Advance) ?g" by simp
    then have none: "phase (state ?g) \<noteq> Complete \<longrightarrow>
        completions (effects ?g) = completions (effects h0)"
      by (simp add: paced_def)
    have one: "\<exists>p. completions (effects ?g) = completions (effects h0) @ [p] \<and>
          total p = length (results p) \<and>
          real (total p) + real (count_list evs Advance) = sessionLength cfg"
      if c: "phase (state ?g) = Complete"
    proof -
      let ?p = "completionPayload qs (sessionResults (state ?g))"
      from pg c have "completions (effects ?g) = completions (effects h0) @ [?p]"
        by (simp add: paced_def)
      moreover have "total ?p = length (results ?p)"
        by (simp add: completionPayload_def)
      moreover from pg c have "total ?p + count_list evs Advance = length qs"
        by (simp add: paced_def completionPayload_def)
      then have "real (total ?p) + real (count_list evs Advance) = sessionLength cfg"
        using len by (metis of_nat_add)
      ultimately show ?thesis by blast
    qed
    from none one show ?thesis by blast
  qed
  have track: "paced qs (completions (effects h0)) 0 ?h"
    by (rule run_submits_paced [OF start])
  have p0: "progress ?h1 = 0"
    by (simp add: h1 progress_def INITIAL_STATE_def)
  have b: "phase (state ?h) = Complete \<longrightarrow>
            (\<exists>p. completions (effects ?h) = completions (effects h0) @ [p] \<and>
                 real (total p) = sessionLength cfg \<and>
                 real (length (results p)) = sessionLength cfg)"
    using track len by (auto simp: paced_def completionPayload_def)
  have c: "phase (state ?h) = Complete" if long: "2 * sessionLength cfg \<le> real (length answers)"
  proof (rule ccontr)
    assume nc: "phase (state ?h) \<noteq> Complete"
    with run_submits_progress [OF start, of answers] p0
    have "length answers \<le> progress ?h" by simp
    moreover from long len have "2 * length qs \<le> length answers"
      by (metis of_nat_le_iff of_nat_mult of_nat_numeral)
    moreover from track nc have "currentIndex (state ?h) < length qs"
      by (auto simp: paced_def)
    ultimately show False by (simp add: progress_def split: if_splits)
  qed
  from a b c show ?thesis by blast
qed

lemma guarded_cfgOne_advance: "guarded (snd (startSession cfgOne rnd0 INITIAL_HOOK)) [Advance]"
  by (simp add: cfgOne_def startSession_def generateSession_def arrayFrom_def isInteger_def
      generateQuestion_def randomPick_def arrGet_def rnd0_def resolveQuestion_def
      getIntervalById_def INTERVALS_def getRootFrequency_def NOTE_FREQUENCIES_def
      SEMITONES_FROM_A4_def getIntervalFrequency_def INITIAL_HOOK_def INITIAL_STATE_def
      play_def Let_def)

lemma run_cfgOne_advance_complete:
  "phase (state (run (snd (startSession cfgOne rnd0 INITIAL_HOOK)) [Advance])) = Complete"
  by (simp add: cfgOne_def startSession_def generateSession_def arrayFrom_def isInteger_def
      generateQuestion_def randomPick_def arrGet_def rnd0_def resolveQuestion_def
      getIntervalById_def INTERVALS_def getRootFrequency_def NOTE_FREQUENCIES_def
      SEMITONES_FROM_A4_def getIntervalFrequency_def INITIAL_HOOK_def INITIAL_STATE_def
      play_def run_def advanceToNext_def computeAdvance_def Let_def)

theorem completion_once_witness:
  "phase (state (run (snd (startSession cfgOne rnd0 INITIAL_HOOK))
            (map Submit [''tritone'', ''tritone'']))) = Complete \<and>
   (\<exists>p. completions (effects (run (snd (startSession cfgOne rnd0 INITIAL_HOOK))
            (map Submit [''tritone'', ''tritone'']))) = [p] \<and> total p = 1) \<and>
   guarded (snd (startSession cfgOne rnd0 INITIAL_HOOK)) [Advance] \<and>
   phase (state (run (snd (startSession cfgOne rnd0 INITIAL_HOOK)) [Advance])) = Complete \<and>
   (\<exists>p. completions (effects (run (snd (startSession cfgOne rnd0 INITIAL_HOOK)) [Advance])) = [p] \<and>
        total p = 0)"
proof -
  let ?h = "run (snd (startSession cfgOne rnd0 INITIAL_HOOK)) (map Submit [''tritone'', ''tritone''])"
  let ?g = "run (snd (startSession cfgOne rnd0 INITIAL_HOOK)) [Advance]"
  note inst = completion_once [OF startSession_cfgOne, of "[Advance]" "[''tritone'', ''tritone'']"]
  have long: "2 * sessionLength cfgOne \<le> real (length [''tritone'', ''tritone''])"
    by (simp add: cfgOne_def)
  have one: "sessionLength cfgOne = 1"
    by (simp add: cfgOne_def)
  have none: "completions (effects INITIAL_HOOK) = []"
    by (simp add: INITIAL_HOOK_def)
  from inst long have complete: "phase (state ?h) = Complete" by blast
  with inst obtain p where "completions (effects ?h) = completions (effects INITIAL_HOOK) @ [p]"
    and "real (total p) = sessionLength cfgOne" by blast
  then have single: "\<exists>p. completions (effects ?h) = [p] \<and> total p = 1"
    using none one by simp
  from inst guarded_cfgOne_advance run_cfgOne_advance_complete obtain p' where
    "completions (effects ?g) = completions (effects INITIAL_HOOK) @ [p']"
    and "real (total p') + real (count_list [Advance] Advance) = sessionLength cfgOne"
    by blast
  then have skipped: "\<exists>p. completions (effects ?g) = [p] \<and> total p = 0"
    using none one by simp
  from complete single guarded_cfgOne_advance run_cfgOne_advance_complete skipped
  show ?thesis by blast
qed

text \<open>
  The claim as stated fails on a run that advances by \<open>advanceToNext\<close>: the question is
  passed without a result, and the payload of a session of length 1 has \<open>total\<close> 0.
\<close>

theorem completion_payload_counterexample:
  "fst (startSession cfgOne rnd0 INITIAL_HOOK) = None \<and>
   sessionLength cfgOne = 1 \<and>
   map total (completions (effects
     (run (snd (startSession cfgOne rnd0 INITIAL_HOOK)) [Advance]))) = [0]"
  by (simp add: cfgOne_def startSession_def generateSession_def arrayFrom_def isInteger_def
      generateQuestion_def randomPick_def arrGet_def rnd0_def resolveQuestion_def
      getIntervalById_def INTERVALS_def getRootFrequency_def NOTE_FREQUENCIES_def
      SEMITONES_FROM_A4_def getIntervalFrequency_def INITIAL_HOOK_def INITIAL_STATE_def
      play_def run_def advanceToNext_def computeAdvance_def completionPayload_def
      submitAnswer_def Let_def)

text \<open>
  \<open>advanceToNext\<close> has no guard for a hook that is already complete: called there, it
  emits the payload once more.
\<close>

lemma advanceToNext_after_complete_emits_again:
  "length (completions (effects
     (run (snd (startSession cfgOne rnd0 INITIAL_HOOK)) [Submit ''root'', Advance]))) = 2"
  by (simp add: cfgOne_def startSession_def generateSession_def arrayFrom_def isInteger_def
      generateQuestion_def randomPick_def arrGet_def rnd0_def resolveQuestion_def
      getIntervalById_def INTERVALS_def getRootFrequency_def NOTE_FREQUENCIES_def
      SEMITONES_FROM_A4_def getIntervalFrequency_def INITIAL_HOOK_def INITIAL_STATE_def
      play_def run_def advanceToNext_def computeAdvance_def completionPayload_def
      submitAnswer_def Let_def)

end
